theory Spec2Isabelle
  imports Complex_Main "HOL-Library.Multiset" "HOL-Library.Product_Lexorder"
begin

section \<open>Randomized k-d forest of fastann: \<^verbatim>\<open>nn_kdtree.hpp\<close>\<close>

text \<open>
  The element type \<^verbatim>\<open>Float\<close>, the discriminant type \<^verbatim>\<open>DiscFloat\<close> and the distance
  type \<^verbatim>\<open>DistFloat\<close> of the source are modelled by one ordered field \<open>'a\<close> with exact
  arithmetic (rationals or reals); rounding of machine floats is outside this model.
  The point array \<^verbatim>\<open>pnts\<close> is the flat list of \<open>N * D\<close> values the source reads with
  \<^verbatim>\<open>pnts[i*D + d]\<close>. A range \<^verbatim>\<open>(inds, N)\<close> of the index permutation is the list of its
  \<open>N\<close> identifiers; a function that partitions the range in place returns the new range.
  Sizes, identifiers and dimensions are \<^verbatim>\<open>unsigned\<close> in the source and natural numbers
  here: the model is of inputs with \<open>N * D\<close> below \<open>2^32\<close>, where \<^verbatim>\<open>i*D + d\<close> does not wrap.
\<close>

subsection \<open>Constants and data\<close>

definition leaf_max_points :: nat where
  "leaf_max_points = 14"

definition varest_max_points :: nat where
  "varest_max_points = 128"

definition varest_max_randsz :: nat where
  "varest_max_randsz = 5"

text \<open>
  Undefined behaviour of the source is an error value of the model:
  \<^item> \<open>EmptyQueuePop\<close>: \<^verbatim>\<open>pri_branch.top()\<close> / \<^verbatim>\<open>pop()\<close> on an empty priority queue;
  \<^item> \<open>LeafOverrun\<close>: the leaf scan of a leaf with \<^verbatim>\<open>num_points_ == 0\<close>, where the unsigned
    \<^verbatim>\<open>ncur_inds-1\<close> wraps and the scan reads past \<^verbatim>\<open>indices_\<close>;
  \<^item> \<open>NoDimension\<close>: \<^verbatim>\<open>choose_split\<close> with \<^verbatim>\<open>D == 0\<close>, where \<^verbatim>\<open>nrand-1\<close> wraps and
    \<^verbatim>\<open>var_dim\<close> is read although it is empty.
\<close>

datatype error = EmptyQueuePop | LeafOverrun | NoDimension

text \<open>
  A node is a leaf (\<^verbatim>\<open>left_ == 0\<close>, with \<^verbatim>\<open>num_points_\<close> identifiers in \<^verbatim>\<open>indices_\<close>) or an
  internal node with \<^verbatim>\<open>left_\<close>, \<^verbatim>\<open>right_\<close>, \<^verbatim>\<open>disc_\<close> and \<^verbatim>\<open>disc_dim_\<close>.
\<close>

datatype 'a kdtree_node =
    Leaf "nat list"
  | Internal "'a kdtree_node" "'a kdtree_node" 'a nat

fun is_leaf :: "'a kdtree_node \<Rightarrow> bool" where
  "is_leaf (Leaf _) = True"
| "is_leaf (Internal _ _ _ _) = False"

subsection \<open>The random stream\<close>

text \<open>
  Modelled from the spec: \<^verbatim>\<open>randomkit.h\<close> is not part of the sources at hand. The spec
  gives \<^verbatim>\<open>next_in_range(max)\<close>, an integer in \<open>[0, max]\<close> drawn from a seeded, stateful
  stream. The state is the list of raw draws still to come (an exhausted stream
  yields 0), so that every behaviour of a generator on a finite build is some state.
\<close>

type_synonym rk_state = "nat list"

fun rk_interval :: "nat \<Rightarrow> rk_state \<Rightarrow> nat \<times> rk_state" where
  "rk_interval mx [] = (0, [])"
| "rk_interval mx (r # rs) = (r mod (mx + 1), rs)"

subsection \<open>Building one tree\<close>

text \<open>
  \<^verbatim>\<open>choose_split\<close>: sums and sums of squares of the first \<open>min N 128\<close> points of the range
  per dimension, the variance estimate per dimension, the \<open>min 5 D\<close> dimensions of largest
  variance (\<^verbatim>\<open>std::partial_sort\<close> with \<^verbatim>\<open>std::greater\<close> on the pairs (variance, dimension);
  the pairs are distinct, so the sorted prefix is the prefix of the list sorted in
  descending order), one of them drawn from the stream, and the sample mean as threshold.
\<close>

definition choose_split ::
  "('a::linordered_field) list \<Rightarrow> nat list \<Rightarrow> nat \<Rightarrow> nat \<Rightarrow> rk_state
     \<Rightarrow> error + ((nat \<times> 'a) \<times> rk_state)" where
  "choose_split pnts inds N D state =
     (if D = 0 then Inl NoDimension
      else
        let count = min N varest_max_points;
            sum_x = map (\<lambda>d. \<Sum>n\<leftarrow>[0..<count]. pnts ! (inds ! n * D + d)) [0..<D];
            sum_xx = map (\<lambda>d. \<Sum>n\<leftarrow>[0..<count].
                            pnts ! (inds ! n * D + d) * pnts ! (inds ! n * D + d)) [0..<D];
            var_dim = map (\<lambda>d.
                        (if count \<le> 1 then 0
                         else (sum_xx ! d - (1 / of_nat count) * sum_x ! d * sum_x ! d)
                                / of_nat (count - 1),
                         d)) [0..<D];
            nrand = min varest_max_randsz D;
            sorted = rev (sort var_dim);
            (r, state') = rk_interval (nrand - 1) state;
            randd = snd (sorted ! r)
        in Inr ((randd, sum_x ! randd / of_nat count), state'))"

text \<open>
  The partition loop of \<^verbatim>\<open>split_points\<close> (\<^verbatim>\<open>while (l!=r)\<close>). It starts at \<open>l = 0\<close>,
  \<open>r = N\<close> and keeps \<open>l \<le> r\<close>, so \<^verbatim>\<open>l != r\<close> is \<open>l < r\<close>.
\<close>

definition swap :: "'b list \<Rightarrow> nat \<Rightarrow> nat \<Rightarrow> 'b list" where
  "swap xs i j = xs[i := xs ! j, j := xs ! i]"

function partition_loop ::
  "('a::linordered_field) list \<Rightarrow> nat \<Rightarrow> nat \<Rightarrow> 'a \<Rightarrow> nat list \<Rightarrow> nat \<Rightarrow> nat
     \<Rightarrow> nat list \<times> nat" where
  "partition_loop pnts D disc_dim disc inds l r =
     (if l < r then
        (if pnts ! (inds ! l * D + disc_dim) < disc
         then partition_loop pnts D disc_dim disc inds (l + 1) r
         else partition_loop pnts D disc_dim disc (swap inds l (r - 1)) l (r - 1))
      else (inds, l))"
  by pat_completeness auto
termination
  by (relation "measure (\<lambda>(pnts, D, disc_dim, disc, inds, l, r). r - l)") auto

declare partition_loop.simps [simp del]

text \<open>
  \<^verbatim>\<open>split_points\<close> up to the two placement constructions: the split descriptor, the
  partitioned range and the size \<open>l\<close> of the left share after the fallback
  \<^verbatim>\<open>if (l==0 || l==N) { l = N/2; }\<close>. The result is
  \<open>(disc_dim_, disc_, inds, l, state)\<close>.
\<close>

definition split_points ::
  "('a::linordered_field) list \<Rightarrow> nat list \<Rightarrow> nat \<Rightarrow> nat \<Rightarrow> rk_state
     \<Rightarrow> error + (nat \<times> 'a \<times> nat list \<times> nat \<times> rk_state)" where
  "split_points pnts inds N D state =
     (case choose_split pnts inds N D state of
        Inl e \<Rightarrow> Inl e
      | Inr ((disc_dim, disc), state') \<Rightarrow>
          let (inds', l) = partition_loop pnts D disc_dim disc inds 0 N;
              l' = (if l = 0 \<or> l = N then N div 2 else l)
          in Inr (disc_dim, disc, inds', l', state'))"

lemma partition_loop_length:
  "length (fst (partition_loop pnts D dd disc inds l r)) = length inds"
proof (induction pnts D dd disc inds l r rule: partition_loop.induct)
  case (1 pnts D dd disc inds l r)
  show ?case
    using "1.IH" by (subst partition_loop.simps) (simp add: swap_def)
qed

lemma partition_loop_bound:
  "l \<le> r \<Longrightarrow> snd (partition_loop pnts D dd disc inds l r) \<le> r"
proof (induction pnts D dd disc inds l r rule: partition_loop.induct)
  case (1 pnts D dd disc inds l r)
  show ?case
  proof (cases "l < r")
    case False
    then show ?thesis
      using "1.prems" by (subst partition_loop.simps) simp
  next
    case True
    then have "Suc l \<le> r" "l \<le> r - 1"
      by arith+
    then show ?thesis
      using True "1.IH"(1)[OF True] "1.IH"(2)[OF True]
      by (subst partition_loop.simps) (auto simp: not_less intro: le_trans)
  qed
qed

lemma split_points_share:
  assumes "split_points pnts inds (length inds) D state = Inr (dd, disc, inds', l, state')"
    and "leaf_max_points < length inds"
  shows "length inds' = length inds \<and> 0 < l \<and> l < length inds"
proof -
  obtain st1 where cs: "choose_split pnts inds (length inds) D state = Inr ((dd, disc), st1)"
    using assms(1) by (auto simp: split_points_def split: sum.splits prod.splits)
  define res where "res = partition_loop pnts D dd disc inds 0 (length inds)"
  have inds': "inds' = fst res"
    and l: "l = (if snd res = 0 \<or> snd res = length inds then length inds div 2 else snd res)"
    using assms(1) cs by (auto simp: split_points_def res_def split: prod.splits)
  have len: "length (fst res) = length inds"
    unfolding res_def by (rule partition_loop_length)
  have bnd: "snd res \<le> length inds"
    unfolding res_def by (rule partition_loop_bound) simp
  have big: "14 < length inds"
    using assms(2) by (simp add: leaf_max_points_def)
  show ?thesis
    using len bnd big by (auto simp: inds' l)
qed

text \<open>
  The constructor \<^verbatim>\<open>kdtree_node(pnts, inds, N, D, state)\<close> with \<open>N = length inds\<close>: an
  internal node when \<open>N > leaf_max_points\<close>, built by \<^verbatim>\<open>split_points\<close> and the two placement
  constructions (left share first, then right share, the stream threaded through), else a
  leaf holding a copy of the range. The result carries the range as the build leaves it
  and the state of the stream.
\<close>

function kdtree_node_new ::
  "('a::linordered_field) list \<Rightarrow> nat list \<Rightarrow> nat \<Rightarrow> rk_state
     \<Rightarrow> error + ('a kdtree_node \<times> nat list \<times> rk_state)" where
  "kdtree_node_new pnts inds D state =
     (if length inds > leaf_max_points then
        (case split_points pnts inds (length inds) D state of
           Inl e \<Rightarrow> Inl e
         | Inr (disc_dim, disc, inds1, l, state1) \<Rightarrow>
             (case kdtree_node_new pnts (take l inds1) D state1 of
                Inl e \<Rightarrow> Inl e
              | Inr (left, indsl, state2) \<Rightarrow>
                  (case kdtree_node_new pnts (drop l inds1) D state2 of
                     Inl e \<Rightarrow> Inl e
                   | Inr (right, indsr, state3) \<Rightarrow>
                       Inr (Internal left right disc disc_dim, indsl @ indsr, state3))))
      else Inr (Leaf inds, inds, state))"
  by pat_completeness auto
termination
proof (relation "measure (\<lambda>(pnts, inds, D, state). length inds)", goal_cases)
  case 1
  show ?case by simp
next
  case (2 pnts inds D state x2 disc_dim y disc ya inds1 yb l state1)
  then have "length inds1 = length inds \<and> 0 < l \<and> l < length inds"
    using split_points_share[of pnts inds D state disc_dim disc inds1 l state1] by simp
  then show ?case by simp
next
  case (3 pnts inds D state x2 disc_dim y disc ya inds1 yb l state1 x2a left yc indsl state2)
  then have "length inds1 = length inds \<and> 0 < l \<and> l < length inds"
    using split_points_share[of pnts inds D state disc_dim disc inds1 l state1] by simp
  then have "length inds1 - l < length inds"
    by arith
  then show ?case by simp
qed

declare kdtree_node_new.simps [simp del]

subsection \<open>Building the forest\<close>

text \<open>
  The members \<^verbatim>\<open>trees_\<close>, \<^verbatim>\<open>N_\<close>, \<^verbatim>\<open>D_\<close>, \<^verbatim>\<open>pnts_\<close> and \<^verbatim>\<open>state_\<close> of
  \<^verbatim>\<open>nn_kdtree\<close>.
\<close>

record 'a nn_kdtree =
  trees_of :: "'a kdtree_node list"
  N_of :: nat
  D_of :: nat
  pnts_of :: "'a list"
  state_of :: rk_state

text \<open>
  The loop \<^verbatim>\<open>for (t=0; t<ntrees; ++t) trees_.push_back(new node_type(pnts, &inds[0], N, D,
  &state_))\<close>: every tree is built on the one vector \<^verbatim>\<open>inds\<close> and the one stream, each as
  the tree before left them. The result lists the trees in build order.
\<close>

fun build_trees ::
  "('a::linordered_field) list \<Rightarrow> nat \<Rightarrow> nat \<Rightarrow> nat list \<Rightarrow> rk_state
     \<Rightarrow> error + ('a kdtree_node list \<times> nat list \<times> rk_state)" where
  "build_trees pnts D 0 inds state = Inr ([], inds, state)"
| "build_trees pnts D (Suc t) inds state =
     (case kdtree_node_new pnts inds D state of
        Inl e \<Rightarrow> Inl e
      | Inr (tree, inds', state') \<Rightarrow>
          (case build_trees pnts D t inds' state' of
             Inl e \<Rightarrow> Inl e
           | Inr (trees, inds'', state'') \<Rightarrow> Inr (tree # trees, inds'', state'')))"

text \<open>
  The constructor \<^verbatim>\<open>nn_kdtree(pnts, N, D, ntrees, seed)\<close>. The seeding function
  \<^verbatim>\<open>rk_seed\<close> of \<^verbatim>\<open>randomkit.h\<close> is a parameter of the model.
\<close>

definition nn_kdtree_new ::
  "(nat \<Rightarrow> rk_state) \<Rightarrow> ('a::linordered_field) list \<Rightarrow> nat \<Rightarrow> nat \<Rightarrow> nat \<Rightarrow> nat
     \<Rightarrow> error + 'a nn_kdtree" where
  "nn_kdtree_new rk_seed pnts N D ntrees seed =
     (case build_trees pnts D ntrees [0..<N] (rk_seed seed) of
        Inl e \<Rightarrow> Inl e
      | Inr (trees, inds, state) \<Rightarrow>
          Inr \<lparr>trees_of = trees, N_of = N, D_of = D, pnts_of = pnts, state_of = state\<rparr>)"

subsection \<open>Search\<close>

text \<open>
  Modelled from the spec: \<^verbatim>\<open>dist_l2_funcs.hpp\<close> is not part of the sources at hand. The
  spec gives the distance primitive as the squared Euclidean distance of two
  \<open>D\<close>-dimensional vectors; here of the query and point \<open>i\<close> of the point array.
\<close>

definition dist_l2 :: "('a::linordered_field) list \<Rightarrow> 'a list \<Rightarrow> nat \<Rightarrow> nat \<Rightarrow> 'a" where
  "dist_l2 qu pnts D i =
     (\<Sum>d\<leftarrow>[0..<D]. (qu ! d - pnts ! (i * D + d)) * (qu ! d - pnts ! (i * D + d)))"

text \<open>
  \<^verbatim>\<open>BPQ\<close> is a \<^verbatim>\<open>std::priority_queue\<close> of pairs (bound, node pointer) under
  \<^verbatim>\<open>std::greater\<close>: its top is the least pair in the lexicographic order of pairs, that
  is, the least bound and, among equal bounds, the least node address. The model keeps
  the entries in a list. The addresses come from \<^verbatim>\<open>malloc\<close> and are no function of the
  arguments of the build, so the address of a node is a parameter \<open>addr\<close> of the search.
  (Two nodes that are equal as values get one address; they are searched alike, so their
  order in the queue does not matter.)
\<close>

type_synonym 'a BPQ = "('a \<times> 'a kdtree_node) list"

definition pq_push :: "'a \<times> 'a kdtree_node \<Rightarrow> 'a BPQ \<Rightarrow> 'a BPQ" where
  "pq_push e pq = e # pq"

definition pq_top ::
  "('a kdtree_node \<Rightarrow> nat) \<Rightarrow> ('a::linordered_field) BPQ \<Rightarrow> 'a \<times> 'a kdtree_node" where
  "pq_top addr pq = arg_min_list (\<lambda>(b, n). (b, addr n)) pq"

definition pq_pop ::
  "('a kdtree_node \<Rightarrow> nat) \<Rightarrow> ('a::linordered_field) BPQ \<Rightarrow> 'a BPQ" where
  "pq_pop addr pq = remove1 (pq_top addr pq) pq"

text \<open>
  \<^verbatim>\<open>kdtree_node::search\<close>, first loop: follow the nearer child down to a leaf and push the
  other child with \<^verbatim>\<open>mindsq + diff*diff\<close>; \<^verbatim>\<open>mindsq\<close> is the parameter of the call at
  every level. The result is the leaf's identifiers and the queue.
\<close>

fun descend ::
  "('a::linordered_field) list \<Rightarrow> 'a \<Rightarrow> 'a kdtree_node \<Rightarrow> 'a BPQ \<Rightarrow> nat list \<times> 'a BPQ" where
  "descend qu mindsq (Leaf cur_inds) pri_branch = (cur_inds, pri_branch)"
| "descend qu mindsq (Internal left right disc disc_dim) pri_branch =
     (let diff = qu ! disc_dim - disc in
      if diff < 0
      then descend qu mindsq left (pq_push (mindsq + diff * diff, right) pri_branch)
      else descend qu mindsq right (pq_push (mindsq + diff * diff, left) pri_branch))"

text \<open>
  \<^verbatim>\<open>kdtree_node::search\<close>, the leaf scan: every identifier but the last is scored and
  marked in \<^verbatim>\<open>seen\<close> unless it is marked already; the last one (\<^verbatim>\<open>cur_inds[ncur_inds-1]\<close>,
  after the loop) is scored unless marked, and \<^verbatim>\<open>seen\<close> is left as it is.
\<close>

fun scan_leaf ::
  "('a::linordered_field) list \<Rightarrow> 'a list \<Rightarrow> nat \<Rightarrow> nat list
     \<Rightarrow> (nat \<times> 'a) list \<times> bool list \<Rightarrow> (nat \<times> 'a) list \<times> bool list" where
  "scan_leaf qu pnts D [] (nns, seen) = (nns, seen)"
| "scan_leaf qu pnts D [i] (nns, seen) =
     (if \<not> seen ! i then (nns @ [(i, dist_l2 qu pnts D i)], seen) else (nns, seen))"
| "scan_leaf qu pnts D (i # j # cur_inds) (nns, seen) =
     scan_leaf qu pnts D (j # cur_inds)
       (if \<not> seen ! i then (nns @ [(i, dist_l2 qu pnts D i)], seen[i := True])
        else (nns, seen))"

text \<open>
  \<^verbatim>\<open>kdtree_node::search\<close> as a whole. With \<^verbatim>\<open>num_points_ == 0\<close> the scan's bound
  \<^verbatim>\<open>ncur_inds-1\<close> wraps around and the scan leaves the leaf's buffer.
\<close>

definition kdtree_node_search ::
  "('a::linordered_field) kdtree_node \<Rightarrow> 'a list \<Rightarrow> 'a BPQ \<Rightarrow> (nat \<times> 'a) list \<Rightarrow> bool list
     \<Rightarrow> 'a list \<Rightarrow> nat \<Rightarrow> 'a \<Rightarrow> error + ('a BPQ \<times> (nat \<times> 'a) list \<times> bool list)" where
  "kdtree_node_search cur qu pri_branch nns seen pnts D mindsq =
     (let (cur_inds, pri_branch') = descend qu mindsq cur pri_branch in
      if cur_inds = [] then Inl LeafOverrun
      else
        let (nns', seen') = scan_leaf qu pnts D cur_inds (nns, seen)
        in Inr (pri_branch', nns', seen'))"

text \<open>\<^verbatim>\<open>nn_kdtree::search\<close>, the loop "Search each tree at least once".\<close>

fun search_trees ::
  "('a::linordered_field) list \<Rightarrow> 'a list \<Rightarrow> nat \<Rightarrow> 'a kdtree_node list
     \<Rightarrow> 'a BPQ \<times> (nat \<times> 'a) list \<times> bool list
     \<Rightarrow> error + ('a BPQ \<times> (nat \<times> 'a) list \<times> bool list)" where
  "search_trees qu pnts D [] s = Inr s"
| "search_trees qu pnts D (t # ts) (pri_branch, nns, seen) =
     (case kdtree_node_search t qu pri_branch nns seen pnts D 0 of
        Inl e \<Rightarrow> Inl e
      | Inr s' \<Rightarrow> search_trees qu pnts D ts s')"

text \<open>
  The size of a subtree and of the subtrees waiting in the queue: the measure under which
  the draining loop ends.
\<close>

fun nodes :: "'a kdtree_node \<Rightarrow> nat" where
  "nodes (Leaf cur_inds) = 1"
| "nodes (Internal left right disc disc_dim) = 1 + nodes left + nodes right"

definition pq_nodes :: "'a BPQ \<Rightarrow> nat" where
  "pq_nodes pq = sum_list (map (\<lambda>e. nodes (snd e)) pq)"

lemma descend_nodes:
  "pq_nodes (snd (descend qu mindsq t pq)) < pq_nodes pq + nodes t"
proof (induction t arbitrary: pq)
  case (Leaf cur_inds)
  show ?case by simp
next
  case (Internal left right disc disc_dim)
  show ?case
    using Internal.IH(1)[of "pq_push (mindsq + (qu ! disc_dim - disc) * (qu ! disc_dim - disc), right) pq"]
      Internal.IH(2)[of "pq_push (mindsq + (qu ! disc_dim - disc) * (qu ! disc_dim - disc), left) pq"]
    by (simp add: Let_def pq_push_def pq_nodes_def)
qed

lemma pq_top_in: "pq \<noteq> [] \<Longrightarrow> pq_top addr pq \<in> set pq"
  by (simp add: pq_top_def arg_min_list_in)

lemma pq_pop_nodes:
  assumes "pq \<noteq> []"
  shows "pq_nodes pq = nodes (snd (pq_top addr pq)) + pq_nodes (pq_pop addr pq)"
  unfolding pq_nodes_def pq_pop_def
  by (rule sum_list_map_remove1) (rule pq_top_in[OF assms])

lemma kdtree_node_search_queue:
  "kdtree_node_search t qu pq nns seen pnts D mindsq = Inr s'
     \<Longrightarrow> fst s' = snd (descend qu mindsq t pq)"
  by (auto simp: kdtree_node_search_def split: prod.splits if_splits)

text \<open>
  \<^verbatim>\<open>nn_kdtree::search\<close>, the loop \<^verbatim>\<open>while (nns.size() < nchecks)\<close>: \<^verbatim>\<open>top()\<close> and
  \<^verbatim>\<open>pop()\<close> with no test for an empty queue, then the search of the popped subtree with
  the popped bound as \<^verbatim>\<open>mindsq\<close>.
\<close>

function drain ::
  "(('a::linordered_field) kdtree_node \<Rightarrow> nat) \<Rightarrow> 'a list \<Rightarrow> 'a list \<Rightarrow> nat \<Rightarrow> nat
     \<Rightarrow> 'a BPQ \<times> (nat \<times> 'a) list \<times> bool list
     \<Rightarrow> error + ('a BPQ \<times> (nat \<times> 'a) list \<times> bool list)" where
  "drain addr qu pnts D nchecks (pri_branch, nns, seen) =
     (if length nns < nchecks then
        (if pri_branch = [] then Inl EmptyQueuePop
         else
           let pr = pq_top addr pri_branch;
               pri_branch' = pq_pop addr pri_branch
           in (case kdtree_node_search (snd pr) qu pri_branch' nns seen pnts D (fst pr) of
                 Inl e \<Rightarrow> Inl e
               | Inr s' \<Rightarrow> drain addr qu pnts D nchecks s'))
      else Inr (pri_branch, nns, seen))"
  by pat_completeness auto
termination
proof (relation "measure (\<lambda>(addr, qu, pnts, D, nchecks, s). pq_nodes (fst s))", goal_cases)
  case 1
  show ?case by simp
next
  case (2 addr qu pnts D nchecks pri_branch nns seen pr pri_branch' s')
  have "fst s' = snd (descend qu (fst pr) (snd pr) pri_branch')"
    using 2 by (auto dest: kdtree_node_search_queue)
  then have "pq_nodes (fst s') < pq_nodes pri_branch' + nodes (snd pr)"
    by (simp add: descend_nodes)
  also have "\<dots> = pq_nodes pri_branch"
    using 2 pq_pop_nodes[of pri_branch addr] by simp
  finally show ?case by simp
qed

declare drain.simps [simp del]

text \<open>
  \<^verbatim>\<open>nn_kdtree::search\<close> up to the end of the draining loop: the candidate list
  \<^verbatim>\<open>nns\<close>, every scored point with its distance in the order of scoring.
\<close>

definition search_cands ::
  "(('a::linordered_field) kdtree_node \<Rightarrow> nat) \<Rightarrow> 'a nn_kdtree \<Rightarrow> 'a list \<Rightarrow> nat \<Rightarrow> nat
     \<Rightarrow> error + (nat \<times> 'a) list" where
  "search_cands addr idx qu numnn nchecks =
     (let nchecks' = (if nchecks < numnn then numnn else nchecks) in
      case search_trees qu (pnts_of idx) (D_of idx) (trees_of idx)
             ([], [], replicate (N_of idx) False) of
        Inl e \<Rightarrow> Inl e
      | Inr s \<Rightarrow>
          (case drain addr qu (pnts_of idx) (D_of idx) nchecks' s of
             Inl e \<Rightarrow> Inl e
           | Inr (pri_branch, nns, seen) \<Rightarrow> Inr nns))"

text \<open>
  \<^verbatim>\<open>nn_kdtree::search\<close>: the candidates, then \<^verbatim>\<open>std::partial_sort\<close> of the first
  \<^verbatim>\<open>numnn\<close> places by distance and the copy of the first \<^verbatim>\<open>min(numnn, nchecks)\<close> entries
  to \<^verbatim>\<open>ret_nns\<close>. The sorted prefix is modelled by the prefix of the list sorted by
  distance (entries of equal distance in the order of scoring; the source leaves their
  order open).
\<close>

definition nn_kdtree_search ::
  "(('a::linordered_field) kdtree_node \<Rightarrow> nat) \<Rightarrow> 'a nn_kdtree \<Rightarrow> 'a list \<Rightarrow> nat \<Rightarrow> nat
     \<Rightarrow> error + (nat \<times> 'a) list" where
  "nn_kdtree_search addr idx qu numnn nchecks =
     (let nchecks' = (if nchecks < numnn then numnn else nchecks) in
      case search_cands addr idx qu numnn nchecks of
        Inl e \<Rightarrow> Inl e
      | Inr nns \<Rightarrow> Inr (take (min numnn nchecks') (sort_key snd nns)))"

section \<open>Notions of the specification\<close>

text \<open>The identifiers stored in the leaves of a subtree, from left to right.\<close>

fun points :: "'a kdtree_node \<Rightarrow> nat list" where
  "points (Leaf cur_inds) = cur_inds"
| "points (Internal left right disc disc_dim) = points left @ points right"

text \<open>
  The partition rule of the specification: at every internal node the identifiers of the
  left subtree are below the threshold along the node's dimension, those of the right
  subtree are not.
\<close>

fun split_rule :: "('a::linordered_field) list \<Rightarrow> nat \<Rightarrow> 'a kdtree_node \<Rightarrow> bool" where
  "split_rule pnts D (Leaf cur_inds) = True"
| "split_rule pnts D (Internal left right disc disc_dim) =
     ((\<forall>i\<in>set (points left). pnts ! (i * D + disc_dim) < disc) \<and>
      (\<forall>i\<in>set (points right). disc \<le> pnts ! (i * D + disc_dim)) \<and>
      split_rule pnts D left \<and> split_rule pnts D right)"


text \<open>Every leaf holds between 1 and \<open>leaf_max_points\<close> identifiers.\<close>

fun leaves_ok :: "'a kdtree_node \<Rightarrow> bool" where
  "leaves_ok (Leaf cur_inds) = (1 \<le> length cur_inds \<and> length cur_inds \<le> leaf_max_points)"
| "leaves_ok (Internal left right disc disc_dim) = (leaves_ok left \<and> leaves_ok right)"


text \<open>
  The leaf that the first loop of \<^verbatim>\<open>kdtree_node::search\<close> reaches from a node, and the
  entries it pushes on the way (the latest first, as they stand in the queue).
\<close>

fun leaf_of :: "('a::linordered_field) list \<Rightarrow> 'a kdtree_node \<Rightarrow> nat list" where
  "leaf_of qu (Leaf cur_inds) = cur_inds"
| "leaf_of qu (Internal left right disc disc_dim) =
     (if qu ! disc_dim - disc < 0 then leaf_of qu left else leaf_of qu right)"

fun frontier :: "('a::linordered_field) list \<Rightarrow> 'a \<Rightarrow> 'a kdtree_node \<Rightarrow> 'a BPQ" where
  "frontier qu mindsq (Leaf cur_inds) = []"
| "frontier qu mindsq (Internal left right disc disc_dim) =
     (let diff = qu ! disc_dim - disc in
      if diff < 0 then frontier qu mindsq left @ [(mindsq + diff * diff, right)]
      else frontier qu mindsq right @ [(mindsq + diff * diff, left)])"

text \<open>
  An example used below: thirty points \<open>0, 1, \<dots>, 29\<close> on a line, the tree that the build
  makes of them, and the index of this one tree.
\<close>

definition line30 :: "rat list" where
  "line30 = map of_nat [0..<30]"

definition tree30 :: "rat kdtree_node" where
  "tree30 =
     Internal
       (Internal (Leaf [0, 1, 2, 3, 4, 5, 6]) (Leaf [8, 9, 10, 11, 12, 13, 14, 7]) 7 0)
       (Internal (Leaf [16, 17, 18, 19, 20, 21, 15]) (Leaf [24, 25, 26, 27, 28, 29, 23, 22])
          22 0)
       (29 / 2) 0"

definition index30 :: "rat nn_kdtree" where
  "index30 = \<lparr>trees_of = [tree30], N_of = 30, D_of = 1, pnts_of = line30, state_of = []\<rparr>"

text \<open>The identifiers held by the subtrees that wait in the queue.\<close>

definition pq_points :: "'a BPQ \<Rightarrow> nat set" where
  "pq_points pq = (\<Union>e\<in>set pq. set (points (snd e)))"

text \<open>Every discriminant dimension of a subtree is one of the \<open>D\<close> dimensions.\<close>

fun dims_ok :: "nat \<Rightarrow> 'a kdtree_node \<Rightarrow> bool" where
  "dims_ok D (Leaf cur_inds) = True"
| "dims_ok D (Internal left right disc disc_dim) =
     (disc_dim < D \<and> dims_ok D left \<and> dims_ok D right)"

text \<open>All nodes of a subtree, the subtree itself first.\<close>

fun subnodes :: "'a kdtree_node \<Rightarrow> 'a kdtree_node list" where
  "subnodes (Leaf cur_inds) = [Leaf cur_inds]"
| "subnodes (Internal left right disc disc_dim) =
     Internal left right disc disc_dim # subnodes left @ subnodes right"

text \<open>All nodes of all trees of an index.\<close>

definition index_nodes :: "'a nn_kdtree \<Rightarrow> 'a kdtree_node list" where
  "index_nodes idx = concat (map subnodes (trees_of idx))"



text \<open>
  The state of a search covers a set \<open>S\<close> of identifiers when every identifier of \<open>S\<close> is
  scored already or waits in a subtree of the queue; \<^verbatim>\<open>seen\<close> has \<open>N\<close> places, a mark
  means "scored", and the subtrees of the queue hold identifiers below \<open>N\<close> in nonempty
  leaves.
\<close>

definition covers ::
  "nat \<Rightarrow> nat set \<Rightarrow> 'a BPQ \<times> (nat \<times> 'a) list \<times> bool list \<Rightarrow> bool" where
  "covers N S s =
     (case s of (pq, nns, seen) \<Rightarrow>
        length seen = N \<and>
        (\<forall>i<N. seen ! i \<longrightarrow> i \<in> fst ` set nns) \<and>
        (\<forall>e\<in>set pq. leaves_ok (snd e) \<and> set (points (snd e)) \<subseteq> {0..<N}) \<and>
        S \<subseteq> fst ` set nns \<union> pq_points pq)"


section \<open>The build is total\<close>

lemma split_points_Inr:
  "1 \<le> D \<Longrightarrow> \<exists>dd disc inds1 l st1.
     split_points pnts inds N D state = Inr (dd, disc, inds1, l, st1)"
  by (auto simp: split_points_def choose_split_def Let_def split: prod.splits)

lemma kdtree_node_new_Inr:
  "1 \<le> D \<Longrightarrow> \<exists>t inds' state'. kdtree_node_new pnts inds D state = Inr (t, inds', state')"
proof (induction pnts inds D state rule: kdtree_node_new.induct)
  case (1 pnts inds D state)
  show ?case
  proof (cases "leaf_max_points < length inds")
    case False
    then show ?thesis
      by (subst kdtree_node_new.simps) simp
  next
    case True
    obtain dd disc inds1 l st1 where
      sp: "split_points pnts inds (length inds) D state = Inr (dd, disc, inds1, l, st1)"
      using split_points_Inr[OF "1.prems"] by blast
    obtain lt il st2 where
      L: "kdtree_node_new pnts (take l inds1) D st1 = Inr (lt, il, st2)"
      using "1.IH"(1)[OF True sp refl refl refl refl "1.prems"] by blast
    obtain rt ir st3 where
      R: "kdtree_node_new pnts (drop l inds1) D st2 = Inr (rt, ir, st3)"
      using "1.IH"(2)[OF True sp refl refl refl refl L refl refl "1.prems"] by blast
    show ?thesis
      by (subst kdtree_node_new.simps) (simp add: True sp L R)
  qed
qed

text \<open>
  C8. With at least one dimension the recursive build of a tree returns a tree for every
  point array, range and state of the stream (the recursion itself is well-founded: the
  termination proof of \<open>kdtree_node_new\<close> rests on \<open>split_points_share\<close>), and whenever a
  range of more than 14 identifiers is split, the left share \<open>l\<close> is nonzero and smaller
  than the range, so that both children get a nonzero share smaller than the range.
\<close>

theorem build_terminates_with_proper_shares:
  assumes "1 \<le> D"
  shows "(\<exists>t inds' state'. kdtree_node_new pnts inds D state = Inr (t, inds', state')) \<and>
         (leaf_max_points < length inds \<longrightarrow>
            (\<exists>dd disc inds1 l st1.
               split_points pnts inds (length inds) D state = Inr (dd, disc, inds1, l, st1) \<and>
               length inds1 = length inds \<and> 0 < l \<and> l < length inds \<and>
               0 < length inds - l \<and> length inds - l < length inds))"
proof (intro conjI impI)
  show "\<exists>t inds' state'. kdtree_node_new pnts inds D state = Inr (t, inds', state')"
    by (rule kdtree_node_new_Inr[OF assms])
next
  assume big: "leaf_max_points < length inds"
  obtain dd disc inds1 l st1 where
    sp: "split_points pnts inds (length inds) D state = Inr (dd, disc, inds1, l, st1)"
    using split_points_Inr[OF assms] by blast
  have "length inds1 = length inds \<and> 0 < l \<and> l < length inds"
    by (rule split_points_share[OF sp big])
  then have "length inds1 = length inds \<and> 0 < l \<and> l < length inds \<and>
             0 < length inds - l \<and> length inds - l < length inds"
    by arith
  then show "\<exists>dd disc inds1 l st1.
               split_points pnts inds (length inds) D state = Inr (dd, disc, inds1, l, st1) \<and>
               length inds1 = length inds \<and> 0 < l \<and> l < length inds \<and>
               0 < length inds - l \<and> length inds - l < length inds"
    using sp by blast
qed

theorem build_terminates_with_proper_shares_witness:
  "(1::nat) \<le> 1 \<and>
   (\<exists>t inds' state'.
      kdtree_node_new (replicate 15 (0::rat)) [0..<15] 1 [] = Inr (t, inds', state')) \<and>
   leaf_max_points < length [0..<15] \<and>
   (\<exists>dd disc inds1 l st1.
      split_points (replicate 15 (0::rat)) [0..<15] (length [0..<15]) 1 []
        = Inr (dd, disc, inds1, l, st1) \<and>
      length inds1 = length [0..<15] \<and> 0 < l \<and> l < length [0..<15] \<and>
      0 < length [0..<15] - l \<and> length [0..<15] - l < length [0..<15])"
proof -
  have d: "(1::nat) \<le> 1"
    by simp
  have big: "leaf_max_points < length [0..<15]"
    by (simp add: leaf_max_points_def)
  show ?thesis
    using build_terminates_with_proper_shares[OF d, of "replicate 15 (0::rat)" "[0..<15]" "[]"]
      d big
    by blast
qed

section \<open>Popping the empty queue\<close>

lemma nn_kdtree_new_no_trees:
  "nn_kdtree_new rk_seed pnts N D 0 seed
     = Inr \<lparr>trees_of = [], N_of = N, D_of = D, pnts_of = pnts, state_of = rk_seed seed\<rparr>"
  by (simp add: nn_kdtree_new_def)

lemma nn_kdtree_new_one_point:
  "nn_kdtree_new rk_seed [0::rat] 1 1 1 seed
     = Inr \<lparr>trees_of = [Leaf [0]], N_of = 1, D_of = 1, pnts_of = [0], state_of = rk_seed seed\<rparr>"
  by (simp add: nn_kdtree_new_def kdtree_node_new.simps leaf_max_points_def)

text \<open>
  C10. The draining loop pops whenever the candidate list is shorter than the raised
  budget, with no test for an empty queue. An index built with no tree pops the empty
  queue for every query as soon as \<open>k\<close> or the budget is positive; and an index of one
  tree over one point pops the empty queue at budget 2, which exceeds what its leaves
  supply.
\<close>

theorem drain_pops_empty_queue:
  "(0 < max numnn nchecks \<longrightarrow>
      (\<exists>idx. nn_kdtree_new rk_seed pnts N D 0 seed = Inr idx \<and>
             nn_kdtree_search addr idx qu numnn nchecks = Inl EmptyQueuePop)) \<and>
   (\<exists>idx. nn_kdtree_new rk_seed' [0::rat] 1 1 1 seed' = Inr idx \<and>
          nn_kdtree_search addr' idx [0] 1 2 = Inl EmptyQueuePop)"
proof (intro conjI impI)
  assume pos: "0 < max numnn nchecks"
  let ?idx = "\<lparr>trees_of = [], N_of = N, D_of = D, pnts_of = pnts, state_of = rk_seed seed\<rparr>"
  have "nn_kdtree_search addr ?idx qu numnn nchecks = Inl EmptyQueuePop"
    using pos by (auto simp: nn_kdtree_search_def search_cands_def drain.simps max_def
        split: if_splits)
  then show "\<exists>idx. nn_kdtree_new rk_seed pnts N D 0 seed = Inr idx \<and>
                   nn_kdtree_search addr idx qu numnn nchecks = Inl EmptyQueuePop"
    using nn_kdtree_new_no_trees[of rk_seed pnts N D seed] by blast
next
  let ?idx = "\<lparr>trees_of = [Leaf [0]], N_of = 1, D_of = 1, pnts_of = [0::rat],
               state_of = rk_seed' seed'\<rparr>"
  have "nn_kdtree_search addr' ?idx [0] 1 2 = Inl EmptyQueuePop"
    by (simp add: nn_kdtree_search_def search_cands_def kdtree_node_search_def drain.simps
        dist_l2_def)
  then show "\<exists>idx. nn_kdtree_new rk_seed' [0::rat] 1 1 1 seed' = Inr idx \<and>
                   nn_kdtree_search addr' idx [0] 1 2 = Inl EmptyQueuePop"
    using nn_kdtree_new_one_point[of rk_seed' seed'] by blast
qed

theorem drain_pops_empty_queue_witness:
  "0 < max (1::nat) 1 \<and>
   (\<exists>idx. nn_kdtree_new (\<lambda>s. []) [0, 1::rat] 2 1 0 42 = Inr idx \<and>
          nn_kdtree_search (\<lambda>n. 0) idx [0] 1 1 = Inl EmptyQueuePop) \<and>
   (\<exists>idx. nn_kdtree_new (\<lambda>s. []) [0::rat] 1 1 1 42 = Inr idx \<and>
          nn_kdtree_search (\<lambda>n. 0) idx [0] 1 2 = Inl EmptyQueuePop)"
proof -
  have pos: "0 < max (1::nat) 1"
    by simp
  show ?thesis
    using drain_pops_empty_queue[of 1 1 "\<lambda>s. []" "[0, 1::rat]" 2 1 42 "\<lambda>n. 0" "[0]"
        "\<lambda>s. []" 42 "\<lambda>n. 0"] pos
    by blast
qed

section \<open>The last identifier of a leaf is never marked\<close>

lemma nn_kdtree_new_two_points:
  "nn_kdtree_new rk_seed [0, 1::rat] 2 1 2 seed
     = Inr \<lparr>trees_of = [Leaf [0, 1], Leaf [0, 1]], N_of = 2, D_of = 1, pnts_of = [0, 1],
            state_of = rk_seed seed\<rparr>"
  by (simp add: nn_kdtree_new_def kdtree_node_new.simps leaf_max_points_def numeral_2_eq_2
      upt_conv_Cons)

lemma two_points_two_trees_search:
  "nn_kdtree_search addr
     \<lparr>trees_of = [Leaf [0, 1], Leaf [0, 1]], N_of = 2, D_of = 1, pnts_of = [0, 1::rat],
      state_of = st\<rparr> [1] 2 2 = Inr [(1, 0), (1, 0)]"
  by (simp add: nn_kdtree_search_def search_cands_def kdtree_node_search_def drain.simps
      dist_l2_def numeral_2_eq_2)

text \<open>
  C1. The claim that no identifier occurs twice in a result fails on the code: two points
  0 and 1 on a line, two trees (each a single leaf \<open>[0, 1]\<close>), the query at point 1,
  \<open>k = 2\<close> and budget 2. The first tree scores 0 and 1 and marks only 0; the second tree
  scores 1 again. The result holds identifier 1 twice and never identifier 0.
\<close>

theorem search_returns_duplicate_identifier:
  "\<exists>idx. nn_kdtree_new rk_seed [0, 1::rat] 2 1 2 seed = Inr idx \<and>
         nn_kdtree_search addr idx [1] 2 2 = Inr [(1, 0), (1, 0)] \<and>
         search_cands addr idx [1] 2 2 = Inr [(0, 1), (1, 0), (1, 0)]"
proof -
  let ?idx = "\<lparr>trees_of = [Leaf [0, 1], Leaf [0, 1]], N_of = 2, D_of = 1,
               pnts_of = [0, 1::rat], state_of = rk_seed seed\<rparr>"
  have "search_cands addr ?idx [1] 2 2 = Inr [(0, 1), (1, 0), (1, 0)]"
    by (simp add: search_cands_def kdtree_node_search_def drain.simps dist_l2_def
        numeral_2_eq_2)
  then show ?thesis
    using nn_kdtree_new_two_points[of rk_seed seed] two_points_two_trees_search[of addr]
    by blast
qed

theorem search_returns_duplicate_identifier_witness:
  "\<exists>idx. nn_kdtree_new (\<lambda>s. []) [0, 1::rat] 2 1 2 42 = Inr idx \<and>
         nn_kdtree_search (\<lambda>n. 0) idx [1] 2 2 = Inr [(1, 0), (1, 0)] \<and>
         search_cands (\<lambda>n. 0) idx [1] 2 2 = Inr [(0, 1), (1, 0), (1, 0)]"
  using search_returns_duplicate_identifier[of "\<lambda>s. []" 42 "\<lambda>n. 0"] .

section \<open>The partition loop\<close>

lemma mset_swap_range:
  "i < length xs \<Longrightarrow> j < length xs \<Longrightarrow> mset (swap xs i j) = mset xs"
  unfolding swap_def by (simp add: mset_swap)

lemma partition_loop_mset:
  "l \<le> r \<Longrightarrow> r \<le> length inds
     \<Longrightarrow> mset (fst (partition_loop pnts D dd disc inds l r)) = mset inds"
proof (induction pnts D dd disc inds l r rule: partition_loop.induct)
  case (1 pnts D dd disc inds l r)
  show ?case
  proof (cases "l < r")
    case False
    then show ?thesis
      by (subst partition_loop.simps) simp
  next
    case True
    then have a: "Suc l \<le> r" "l \<le> r - 1" "r - 1 \<le> length (swap inds l (r - 1))"
      "l < length inds" "r - 1 < length inds"
      using "1.prems" by (auto simp: swap_def)
    show ?thesis
      using True "1.IH"(1)[OF True] "1.IH"(2)[OF True] a "1.prems"
      by (subst partition_loop.simps) (auto simp: mset_swap_range)
  qed
qed

text \<open>
  The loop invariant of the partition: the identifiers before \<open>l\<close> are below the
  threshold, those from \<open>r\<close> on are not.
\<close>

lemma partition_loop_sides:
  assumes "l \<le> r" "r \<le> length inds"
    and "\<forall>i<l. pnts ! (inds ! i * D + dd) < disc"
    and "\<forall>i. r \<le> i \<and> i < length inds \<longrightarrow> disc \<le> pnts ! (inds ! i * D + dd)"
  shows "(\<forall>i<snd (partition_loop pnts D dd disc inds l r).
            pnts ! (fst (partition_loop pnts D dd disc inds l r) ! i * D + dd) < disc) \<and>
         (\<forall>i. snd (partition_loop pnts D dd disc inds l r) \<le> i \<and> i < length inds \<longrightarrow>
            disc \<le> pnts ! (fst (partition_loop pnts D dd disc inds l r) ! i * D + dd))"
  using assms
proof (induction pnts D dd disc inds l r rule: partition_loop.induct)
  case (1 pnts D dd disc inds l r)
  show ?case
  proof (cases "l < r")
    case False
    then have "l = r"
      using "1.prems"(1) by simp
    then show ?thesis
      using "1.prems" by (subst (1 2 3 4) partition_loop.simps) simp
  next
    case True
    show ?thesis
    proof (cases "pnts ! (inds ! l * D + dd) < disc")
      case lt: True
      have p: "\<forall>i<l + 1. pnts ! (inds ! i * D + dd) < disc"
        using lt "1.prems"(3) by (auto simp: less_Suc_eq)
      have "l + 1 \<le> r"
        using True by simp
      from "1.IH"(1)[OF True lt this "1.prems"(2) p "1.prems"(4)]
      show ?thesis
        using True lt by (subst (1 2 3 4) partition_loop.simps) simp
    next
      case ge: False
      let ?inds = "swap inds l (r - 1)"
      have len: "length ?inds = length inds"
        by (simp add: swap_def)
      have lr: "l \<le> r - 1" "r - 1 < length inds" "l < length inds"
        using True "1.prems"(2) by auto
      have p1: "\<forall>i<l. pnts ! (?inds ! i * D + dd) < disc"
        using "1.prems"(3) lr by (auto simp: swap_def)
      have p2: "\<forall>i. r - 1 \<le> i \<and> i < length ?inds \<longrightarrow> disc \<le> pnts ! (?inds ! i * D + dd)"
      proof (intro allI impI)
        fix i
        assume i: "r - 1 \<le> i \<and> i < length ?inds"
        show "disc \<le> pnts ! (?inds ! i * D + dd)"
        proof (cases "i = r - 1")
          case True
          then show ?thesis
            using ge lr by (simp add: swap_def)
        next
          case False
          then have "r \<le> i" "i \<noteq> l"
            using i True by auto
          then show ?thesis
            using "1.prems"(4) i False lr by (simp add: swap_def)
        qed
      qed
      have r1: "r - 1 \<le> length ?inds"
        using lr len by simp
      from "1.IH"(2)[OF True ge lr(1) r1 p1 p2]
      show ?thesis
        using True ge len by (subst (1 2 3 4) partition_loop.simps) simp
    qed
  qed
qed

text \<open>
  What \<^verbatim>\<open>split_points\<close> hands to the two children: a permutation of the range, with
  either the partition rule between the shares, or, after the fallback, all identifiers
  on one side of the threshold and the left share \<open>N div 2\<close>.
\<close>

lemma split_points_sides:
  assumes "split_points pnts inds (length inds) D state = Inr (dd, disc, inds1, l, state')"
  shows "mset inds1 = mset inds \<and>
         (((\<forall>i\<in>set (take l inds1). pnts ! (i * D + dd) < disc) \<and>
           (\<forall>i\<in>set (drop l inds1). disc \<le> pnts ! (i * D + dd))) \<or>
          (l = length inds div 2 \<and> (\<forall>i\<in>set inds1. disc \<le> pnts ! (i * D + dd))) \<or>
          (l = length inds div 2 \<and> (\<forall>i\<in>set inds1. pnts ! (i * D + dd) < disc)))"
proof -
  obtain st1 where cs: "choose_split pnts inds (length inds) D state = Inr ((dd, disc), st1)"
    using assms by (auto simp: split_points_def split: sum.splits prod.splits)
  define res where "res = partition_loop pnts D dd disc inds 0 (length inds)"
  have inds1: "inds1 = fst res"
    and l: "l = (if snd res = 0 \<or> snd res = length inds then length inds div 2 else snd res)"
    using assms cs by (auto simp: split_points_def res_def split: prod.splits)
  have ms: "mset inds1 = mset inds"
    unfolding inds1 res_def by (rule partition_loop_mset) simp_all
  have len: "length inds1 = length inds"
    unfolding inds1 res_def by (rule partition_loop_length)
  have sides: "(\<forall>i<snd res. pnts ! (inds1 ! i * D + dd) < disc) \<and>
               (\<forall>i. snd res \<le> i \<and> i < length inds \<longrightarrow> disc \<le> pnts ! (inds1 ! i * D + dd))"
    unfolding inds1 res_def by (rule partition_loop_sides) simp_all
  have bnd: "snd res \<le> length inds"
    unfolding res_def by (rule partition_loop_bound) simp
  have low: "\<forall>i\<in>set (take (snd res) inds1). pnts ! (i * D + dd) < disc"
    using sides len bnd by (auto simp: in_set_conv_nth)
  have high: "\<forall>i\<in>set (drop (snd res) inds1). disc \<le> pnts ! (i * D + dd)"
    using sides len bnd by (auto simp: in_set_conv_nth)
  consider "snd res = 0" | "snd res = length inds" | "snd res \<noteq> 0" "snd res \<noteq> length inds"
    by blast
  then have "((\<forall>i\<in>set (take l inds1). pnts ! (i * D + dd) < disc) \<and>
           (\<forall>i\<in>set (drop l inds1). disc \<le> pnts ! (i * D + dd))) \<or>
          (l = length inds div 2 \<and> (\<forall>i\<in>set inds1. disc \<le> pnts ! (i * D + dd))) \<or>
          (l = length inds div 2 \<and> (\<forall>i\<in>set inds1. pnts ! (i * D + dd) < disc))"
  proof cases
    case 1
    then show ?thesis
      using high l by simp
  next
    case 2
    then show ?thesis
      using low l len by simp
  next
    case 3
    then show ?thesis
      using low high l by simp
  qed
  then show ?thesis
    using ms by blast
qed

section \<open>What a built tree holds\<close>

lemma kdtree_node_new_points:
  "kdtree_node_new pnts inds D state = Inr (t, inds', state')
     \<Longrightarrow> points t = inds' \<and> mset inds' = mset inds"
proof (induction pnts inds D state arbitrary: t inds' state' rule: kdtree_node_new.induct)
  case (1 pnts inds D state)
  show ?case
  proof (cases "leaf_max_points < length inds")
    case False
    then show ?thesis
      using "1.prems" by (subst (asm) kdtree_node_new.simps) auto
  next
    case True
    from "1.prems" True obtain dd disc inds1 l st1 lt il st2 rt ir where
      sp: "split_points pnts inds (length inds) D state = Inr (dd, disc, inds1, l, st1)"
      and L: "kdtree_node_new pnts (take l inds1) D st1 = Inr (lt, il, st2)"
      and R: "kdtree_node_new pnts (drop l inds1) D st2 = Inr (rt, ir, state')"
      and t: "t = Internal lt rt disc dd" and inds': "inds' = il @ ir"
      by (subst (asm) kdtree_node_new.simps) (auto split: sum.splits prod.splits)
    have l: "points lt = il \<and> mset il = mset (take l inds1)"
      by (rule "1.IH"(1)[OF True sp refl refl refl refl L])
    have r: "points rt = ir \<and> mset ir = mset (drop l inds1)"
      by (rule "1.IH"(2)[OF True sp refl refl refl refl L refl refl R])
    have "mset (take l inds1) + mset (drop l inds1) = mset inds1"
      by (metis append_take_drop_id mset_append)
    then have "mset (il @ ir) = mset inds"
      using split_points_sides[OF sp] l r by simp
    then show ?thesis
      using l r t inds' by simp
  qed
qed

lemma kdtree_node_new_Internal:
  assumes "kdtree_node_new pnts inds D state = Inr (t, inds', state')"
    and "leaf_max_points < length inds"
  obtains dd disc inds1 l st1 lt il st2 rt ir where
    "split_points pnts inds (length inds) D state = Inr (dd, disc, inds1, l, st1)"
    "kdtree_node_new pnts (take l inds1) D st1 = Inr (lt, il, st2)"
    "kdtree_node_new pnts (drop l inds1) D st2 = Inr (rt, ir, state')"
    "t = Internal lt rt disc dd" "inds' = il @ ir"
  using assms by (subst (asm) kdtree_node_new.simps) (auto split: sum.splits prod.splits)

lemma kdtree_node_new_Leaf:
  assumes "kdtree_node_new pnts inds D state = Inr (t, inds', state')"
    and "\<not> leaf_max_points < length inds"
  shows "t = Leaf inds \<and> inds' = inds \<and> state' = state"
  using assms by (subst (asm) kdtree_node_new.simps) auto



lemma kdtree_node_new_leaves_ok:
  "kdtree_node_new pnts inds D state = Inr (t, inds', state') \<Longrightarrow> inds \<noteq> [] \<Longrightarrow> leaves_ok t"
proof (induction pnts inds D state arbitrary: t inds' state' rule: kdtree_node_new.induct)
  case (1 pnts inds D state)
  show ?case
  proof (cases "leaf_max_points < length inds")
    case False
    then show ?thesis
      using kdtree_node_new_Leaf[OF "1.prems"(1)] "1.prems"(2)
      by (cases inds) auto
  next
    case True
    from "1.prems"(1) True obtain dd disc inds1 l st1 lt il st2 rt ir where
      sp: "split_points pnts inds (length inds) D state = Inr (dd, disc, inds1, l, st1)"
      and L: "kdtree_node_new pnts (take l inds1) D st1 = Inr (lt, il, st2)"
      and R: "kdtree_node_new pnts (drop l inds1) D st2 = Inr (rt, ir, state')"
      and t: "t = Internal lt rt disc dd"
      by (rule kdtree_node_new_Internal)
    have share: "length inds1 = length inds \<and> 0 < l \<and> l < length inds"
      by (rule split_points_share[OF sp True])
    then have ne: "take l inds1 \<noteq> []" "drop l inds1 \<noteq> []"
      by auto
    show ?thesis
      using "1.IH"(1)[OF True sp refl refl refl refl L ne(1)]
        "1.IH"(2)[OF True sp refl refl refl refl L refl refl R ne(2)] t
      by simp
  qed
qed

lemma build_identical_points:
  "kdtree_node_new (replicate 15 (0::rat)) [0..<15] 1 []
     = Inr (Internal (Leaf [1, 2, 3, 4, 5, 6, 7]) (Leaf [8, 9, 10, 11, 12, 13, 14, 0]) 0 0,
            [1, 2, 3, 4, 5, 6, 7, 8, 9, 10, 11, 12, 13, 14, 0], [])"
  by code_simp



section \<open>The trees of a forest share one permutation array\<close>

lemma case_sum_InrE:
  assumes "(case x of Inl e \<Rightarrow> Inl e | Inr v \<Rightarrow> f v) = Inr y"
  obtains v where "x = Inr v" "f v = Inr y"
  using assms by (cases x) auto

lemma build_trees_perm:
  "build_trees pnts D ntrees inds state = Inr (trees, inds', state')
     \<Longrightarrow> mset inds' = mset inds \<and> length trees = ntrees \<and>
         (\<forall>t\<in>set trees. mset (points t) = mset inds)"
proof (induction ntrees arbitrary: inds state trees inds' state')
  case 0
  then show ?case by simp
next
  case (Suc n)
  from Suc.prems obtain t inds1 st1 ts where
    K: "kdtree_node_new pnts inds D state = Inr (t, inds1, st1)"
    and B: "build_trees pnts D n inds1 st1 = Inr (ts, inds', state')"
    and trees: "trees = t # ts"
    by (auto split: sum.splits prod.splits)
  have p: "points t = inds1 \<and> mset inds1 = mset inds"
    by (rule kdtree_node_new_points[OF K])
  show ?case
    using Suc.IH[OF B] p trees by auto
qed

lemma build_trees_add:
  "build_trees pnts D (m + n) inds state =
     (case build_trees pnts D m inds state of
        Inl e \<Rightarrow> Inl e
      | Inr (ts, inds1, st1) \<Rightarrow>
          (case build_trees pnts D n inds1 st1 of
             Inl e \<Rightarrow> Inl e
           | Inr (us, inds2, st2) \<Rightarrow> Inr (ts @ us, inds2, st2)))"
proof (induction m arbitrary: inds state)
  case 0
  show ?case by (simp split: sum.split prod.split)
next
  case (Suc m)
  show ?case
    by (simp add: Suc.IH split: sum.split prod.split)
qed

text \<open>
  C6 (as amended). All trees are built on one permutation array, filled with the
  identity once. Tree \<open>t\<close> (counted from 0) is built from the array and the stream as
  the \<open>t\<close> trees before it left them; that array is a permutation of \<open>[0, N)\<close>, and the
  identity for the first tree; and the leaves of every tree hold exactly the identifiers
  \<open>[0, N)\<close>, each once.
\<close>

theorem trees_share_permutation_array:
  assumes "nn_kdtree_new rk_seed pnts N D ntrees seed = Inr idx" and "t < ntrees"
  shows "\<exists>ts inds state inds' state'.
           build_trees pnts D t [0..<N] (rk_seed seed) = Inr (ts, inds, state) \<and>
           kdtree_node_new pnts inds D state = Inr (trees_of idx ! t, inds', state') \<and>
           mset inds = mset [0..<N] \<and> (t = 0 \<longrightarrow> inds = [0..<N]) \<and>
           mset (points (trees_of idx ! t)) = mset [0..<N]"
proof -
  from assms(1) obtain trees indsT stT where
    B: "build_trees pnts D ntrees [0..<N] (rk_seed seed) = Inr (trees, indsT, stT)"
    and idx: "trees_of idx = trees"
    by (auto simp: nn_kdtree_new_def split: sum.splits prod.splits)
  define u where "u = ntrees - Suc t"
  have n: "ntrees = t + Suc u"
    using assms(2) unfolding u_def by arith
  have B': "(case build_trees pnts D t [0..<N] (rk_seed seed) of
               Inl e \<Rightarrow> Inl e
             | Inr (ts, inds1, st1) \<Rightarrow>
                 (case build_trees pnts D (Suc u) inds1 st1 of
                    Inl e \<Rightarrow> Inl e
                  | Inr (us, inds2, st2) \<Rightarrow> Inr (ts @ us, inds2, st2)))
            = Inr (trees, indsT, stT)"
    using B unfolding n build_trees_add .
  from B' obtain v where
    P0: "build_trees pnts D t [0..<N] (rk_seed seed) = Inr v"
    and S0: "(case v of (ts, inds1, st1) \<Rightarrow>
                (case build_trees pnts D (Suc u) inds1 st1 of
                   Inl e \<Rightarrow> Inl e
                 | Inr (us, inds2, st2) \<Rightarrow> Inr (ts @ us, inds2, st2)))
             = Inr (trees, indsT, stT)"
    by (rule case_sum_InrE)
  obtain ts inds state where v: "v = (ts, inds, state)"
    by (cases v) auto
  from S0[unfolded v prod.case] obtain w where
    S1: "build_trees pnts D (Suc u) inds state = Inr w"
    and S2: "(case w of (us, inds2, st2) \<Rightarrow> Inr (ts @ us, inds2, st2))
             = (Inr (trees, indsT, stT) :: error + _)"
    by (rule case_sum_InrE)
  obtain us where trees: "trees = ts @ us" and w: "w = (us, indsT, stT)"
    using S2 by (cases w) auto
  have S1': "(case kdtree_node_new pnts inds D state of
                Inl e \<Rightarrow> Inl e
              | Inr (tree, inds', state') \<Rightarrow>
                  (case build_trees pnts D u inds' state' of
                     Inl e \<Rightarrow> Inl e
                   | Inr (trees, inds'', state'') \<Rightarrow> Inr (tree # trees, inds'', state'')))
             = Inr (us, indsT, stT)"
    using S1 unfolding w build_trees.simps .
  from S1' obtain x where
    K0: "kdtree_node_new pnts inds D state = Inr x"
    and K1: "(case x of (tree, inds', state') \<Rightarrow>
                 (case build_trees pnts D u inds' state' of
                    Inl e \<Rightarrow> Inl e
                  | Inr (trees, inds'', state'') \<Rightarrow> Inr (tree # trees, inds'', state'')))
             = Inr (us, indsT, stT)"
    by (rule case_sum_InrE)
  obtain tr inds' state' where x: "x = (tr, inds', state')"
    by (cases x) auto
  from K1[unfolded x prod.case] obtain y where
    "build_trees pnts D u inds' state' = Inr y"
    and K2: "(case y of (trees, inds'', state'') \<Rightarrow> Inr (tr # trees, inds'', state''))
             = (Inr (us, indsT, stT) :: error + _)"
    by (rule case_sum_InrE)
  obtain rest where us: "us = tr # rest"
    using K2 by (cases y) auto
  have P: "build_trees pnts D t [0..<N] (rk_seed seed) = Inr (ts, inds, state)"
    using P0 v by simp
  have K: "kdtree_node_new pnts inds D state = Inr (tr, inds', state')"
    using K0 x by simp
  have len: "length ts = t" and perm: "mset inds = mset [0..<N]"
    using build_trees_perm[OF P] by simp_all
  have nth: "trees_of idx ! t = tr"
    using idx trees us len by (simp add: nth_append)
  have pts: "mset (points tr) = mset [0..<N]"
    using kdtree_node_new_points[OF K] perm by simp
  have first: "t = 0 \<longrightarrow> inds = [0..<N]"
    using P by auto
  show ?thesis
    unfolding nth
    by (intro exI conjI) (rule P, rule K, rule perm, rule first, rule pts)
qed

lemma build_one_far_point:
  "build_trees (1 # replicate 14 (0::rat)) 1 1 [0..<15] []
     = Inr ([Internal (Leaf [14, 1, 2, 3, 4, 5, 6, 7, 8, 9, 10, 11, 12, 13]) (Leaf [0])
               (1 / 15) 0],
            [14, 1, 2, 3, 4, 5, 6, 7, 8, 9, 10, 11, 12, 13, 0], [])"
  by code_simp

lemma index_one_far_point:
  "nn_kdtree_new (\<lambda>s. []) (1 # replicate 14 (0::rat)) 15 1 2 42
     = Inr \<lparr>trees_of =
              [Internal (Leaf [14, 1, 2, 3, 4, 5, 6, 7, 8, 9, 10, 11, 12, 13]) (Leaf [0])
                 (1 / 15) 0,
               Internal (Leaf [14, 1, 2, 3, 4, 5, 6, 7, 8, 9, 10, 11, 12, 13]) (Leaf [0])
                 (1 / 15) 0],
            N_of = 15, D_of = 1, pnts_of = 1 # replicate 14 0, state_of = []\<rparr>"
  by code_simp

text \<open>
  C6 as stated fails on the code: fifteen points on a line, point 0 at 1 and the others
  at 0. The build of the first tree swaps identifiers 0 and 14, and the array it leaves,
  which is the array the second tree starts from, is not the identity.
\<close>

theorem second_tree_starts_from_permuted_array:
  "build_trees (1 # replicate 14 (0::rat)) 1 1 [0..<15] []
     = Inr ([Internal (Leaf [14, 1, 2, 3, 4, 5, 6, 7, 8, 9, 10, 11, 12, 13]) (Leaf [0])
               (1 / 15) 0],
            [14, 1, 2, 3, 4, 5, 6, 7, 8, 9, 10, 11, 12, 13, 0], []) \<and>
   [14, 1, 2, 3, 4, 5, 6, 7, 8, 9, 10, 11, 12, 13, 0] \<noteq> [0..<15]"
proof
  show "build_trees (1 # replicate 14 (0::rat)) 1 1 [0..<15] []
     = Inr ([Internal (Leaf [14, 1, 2, 3, 4, 5, 6, 7, 8, 9, 10, 11, 12, 13]) (Leaf [0])
               (1 / 15) 0],
            [14, 1, 2, 3, 4, 5, 6, 7, 8, 9, 10, 11, 12, 13, 0], [])"
    by (rule build_one_far_point)
  show "[14, 1, 2, 3, 4, 5, 6, 7, 8, 9, 10, 11, 12, 13, 0] \<noteq> [0..<15]"
    by (simp add: upt_conv_Cons)
qed

theorem trees_share_permutation_array_witness:
  "nn_kdtree_new (\<lambda>s. []) (1 # replicate 14 (0::rat)) 15 1 2 42
     = Inr \<lparr>trees_of =
              [Internal (Leaf [14, 1, 2, 3, 4, 5, 6, 7, 8, 9, 10, 11, 12, 13]) (Leaf [0])
                 (1 / 15) 0,
               Internal (Leaf [14, 1, 2, 3, 4, 5, 6, 7, 8, 9, 10, 11, 12, 13]) (Leaf [0])
                 (1 / 15) 0],
            N_of = 15, D_of = 1, pnts_of = 1 # replicate 14 0, state_of = []\<rparr> \<and>
   (1::nat) < 2 \<and>
   (\<exists>ts inds state inds' state'.
      build_trees (1 # replicate 14 (0::rat)) 1 1 [0..<15] [] = Inr (ts, inds, state) \<and>
      kdtree_node_new (1 # replicate 14 (0::rat)) inds 1 state
        = Inr (Internal (Leaf [14, 1, 2, 3, 4, 5, 6, 7, 8, 9, 10, 11, 12, 13]) (Leaf [0])
                 (1 / 15) 0, inds', state') \<and>
      mset inds = mset [0..<15] \<and>
      mset (points (Internal (Leaf [14, 1, 2, 3, 4, 5, 6, 7, 8, 9, 10, 11, 12, 13]) (Leaf [0])
                      (1 / 15) (0::nat) :: rat kdtree_node)) = mset [0..<15])"
proof -
  have lt: "(1::nat) < 2"
    by simp
  show ?thesis
    using trees_share_permutation_array[OF index_one_far_point lt] index_one_far_point lt
    by simp
qed

section \<open>The steps of the search\<close>

lemma descend_eq:
  "descend qu mindsq t pq = (leaf_of qu t, frontier qu mindsq t @ pq)"
  by (induction t arbitrary: pq) (simp_all add: Let_def pq_push_def)

lemma kdtree_node_search_Inr:
  assumes "kdtree_node_search t qu pq nns seen pnts D mindsq = Inr (pq', nns', seen')"
  shows "leaf_of qu t \<noteq> [] \<and> pq' = frontier qu mindsq t @ pq \<and>
         nns' = fst (scan_leaf qu pnts D (leaf_of qu t) (nns, seen)) \<and>
         seen' = snd (scan_leaf qu pnts D (leaf_of qu t) (nns, seen))"
  using assms
  by (auto simp: kdtree_node_search_def descend_eq split: if_splits prod.splits)

lemma kdtree_node_search_nonempty:
  assumes "leaf_of qu t \<noteq> []"
  shows "kdtree_node_search t qu pq nns seen pnts D mindsq
           = Inr (frontier qu mindsq t @ pq,
                  fst (scan_leaf qu pnts D (leaf_of qu t) (nns, seen)),
                  snd (scan_leaf qu pnts D (leaf_of qu t) (nns, seen)))"
  using assms by (simp add: kdtree_node_search_def descend_eq split: prod.splits)

text \<open>The draining loop keeps an invariant that every search of a popped subtree keeps.\<close>

lemma drain_invariant:
  assumes "drain addr qu pnts D nchecks s = Inr s'"
    and "I s"
    and step: "\<And>pq nns seen s''. I (pq, nns, seen) \<Longrightarrow> length nns < nchecks \<Longrightarrow> pq \<noteq> [] \<Longrightarrow>
                 kdtree_node_search (snd (pq_top addr pq)) qu (pq_pop addr pq) nns seen pnts D
                   (fst (pq_top addr pq)) = Inr s'' \<Longrightarrow> I s''"
  shows "I s' \<and> nchecks \<le> length (fst (snd s'))"
  using assms
proof (induction addr qu pnts D nchecks s rule: drain.induct)
  case (1 addr qu pnts D nchecks pq nns seen)
  show ?case
  proof (cases "length nns < nchecks")
    case False
    then have "s' = (pq, nns, seen)"
      using "1.prems"(1) by (subst (asm) drain.simps) simp
    then show ?thesis
      using False "1.prems"(2) by simp
  next
    case True
    then have ne: "pq \<noteq> []"
      using "1.prems"(1) by (subst (asm) drain.simps) auto
    from "1.prems"(1) True ne obtain s'' where
      K: "kdtree_node_search (snd (pq_top addr pq)) qu (pq_pop addr pq) nns seen pnts D
            (fst (pq_top addr pq)) = Inr s''"
      and R: "drain addr qu pnts D nchecks s'' = Inr s'"
      by (subst (asm) drain.simps) (auto simp: Let_def split: sum.splits)
    have I'': "I s''"
      by (rule "1.prems"(3)[OF "1.prems"(2) True ne K])
    show ?thesis
    proof (rule "1.IH"[OF True ne refl refl K R I''])
      fix pq1 nns1 seen1 s1
      assume "I (pq1, nns1, seen1)" "length nns1 < nchecks" "pq1 \<noteq> []"
        "kdtree_node_search (snd (pq_top addr pq1)) qu (pq_pop addr pq1) nns1 seen1 pnts D
           (fst (pq_top addr pq1)) = Inr s1"
      then show "I s1"
        by (rule "1.prems"(3))
    qed
  qed
qed

section \<open>How many points a search scores\<close>







lemma nn_kdtree_new_Inr:
  assumes "nn_kdtree_new rk_seed pnts N D ntrees seed = Inr idx"
  obtains inds state where
    "build_trees pnts D ntrees [0..<N] (rk_seed seed) = Inr (trees_of idx, inds, state)"
    "N_of idx = N" "D_of idx = D" "pnts_of idx = pnts"
  using assms by (auto simp: nn_kdtree_new_def split: sum.splits prod.splits)

lemma search_cands_Inr:
  assumes "search_cands addr idx qu numnn nchecks = Inr nns"
  obtains s pq seen where
    "search_trees qu (pnts_of idx) (D_of idx) (trees_of idx)
       ([], [], replicate (N_of idx) False) = Inr s"
    "drain addr qu (pnts_of idx) (D_of idx) (max numnn nchecks) s = Inr (pq, nns, seen)"
proof -
  have m: "(if nchecks < numnn then numnn else nchecks) = max numnn nchecks"
    by (simp add: max_def)
  show ?thesis
    using assms that unfolding search_cands_def m Let_def
    by (auto split: sum.splits prod.splits)
qed


lemma build_index30: "nn_kdtree_new (\<lambda>s. []) line30 30 1 1 42 = Inr index30"
  by code_simp






section \<open>When the search returns\<close>

lemma points_leaf_frontier:
  "set (points t) = set (leaf_of qu t) \<union> pq_points (frontier qu mindsq t)"
  by (induction t) (auto simp: pq_points_def Let_def)

lemma frontier_leaves_ok:
  "leaves_ok t \<Longrightarrow> e \<in> set (frontier qu mindsq t) \<Longrightarrow> leaves_ok (snd e)"
  by (induction t) (auto simp: Let_def split: if_splits)

lemma leaf_of_nonempty: "leaves_ok t \<Longrightarrow> leaf_of qu t \<noteq> []"
  by (induction t) auto

lemma pq_points_append: "pq_points (xs @ ys) = pq_points xs \<union> pq_points ys"
  by (simp add: pq_points_def)

lemma set_remove1_insert: "x \<in> set xs \<Longrightarrow> insert x (set (remove1 x xs)) = set xs"
  by (induction xs) auto

lemma pq_points_pop:
  "pq \<noteq> [] \<Longrightarrow> pq_points pq
     = set (points (snd (pq_top addr pq))) \<union> pq_points (pq_pop addr pq)"
proof -
  assume "pq \<noteq> []"
  then have "insert (pq_top addr pq) (set (pq_pop addr pq)) = set pq"
    unfolding pq_pop_def by (intro set_remove1_insert pq_top_in)
  then show ?thesis
    unfolding pq_points_def by (metis UN_insert)
qed

text \<open>
  The scan of a leaf whose identifiers are in range: every identifier of the leaf is
  among the candidates afterwards, and a mark in \<^verbatim>\<open>seen\<close> still means "scored".
\<close>

lemma scan_leaf_covers:
  assumes "\<forall>i<length seen. seen ! i \<longrightarrow> i \<in> fst ` set nns"
    and "\<forall>i\<in>set cur_inds. i < length seen"
  shows "set cur_inds \<union> fst ` set nns
           \<subseteq> fst ` set (fst (scan_leaf qu pnts D cur_inds (nns, seen))) \<and>
         length (snd (scan_leaf qu pnts D cur_inds (nns, seen))) = length seen \<and>
         (\<forall>i<length seen. snd (scan_leaf qu pnts D cur_inds (nns, seen)) ! i
            \<longrightarrow> i \<in> fst ` set (fst (scan_leaf qu pnts D cur_inds (nns, seen))))"
  using assms
proof (induction qu pnts D cur_inds "(nns, seen)" arbitrary: nns seen rule: scan_leaf.induct)
  case (1 qu pnts D nns seen)
  then show ?case by simp
next
  case (2 qu pnts D i nns seen)
  then show ?case by auto
next
  case (3 qu pnts D i j cur_inds nns seen)
  show ?case
  proof (cases "seen ! i")
    case True
    have i: "i \<in> fst ` set nns"
      using True "3.prems" by simp
    have "\<forall>i\<in>set (j # cur_inds). i < length seen"
      using "3.prems"(2) by simp
    from "3.hyps"[of nns seen, OF _ "3.prems"(1) this] True i
    show ?thesis by auto
  next
    case False
    let ?nns = "nns @ [(i, dist_l2 qu pnts D i)]"
    let ?seen = "seen[i := True]"
    have "i < length seen"
      using "3.prems"(2) by simp
    then have a: "\<forall>k<length ?seen. ?seen ! k \<longrightarrow> k \<in> fst ` set ?nns"
      using "3.prems"(1) by (auto simp: nth_list_update split: if_splits)
    have b: "\<forall>k\<in>set (j # cur_inds). k < length ?seen"
      using "3.prems"(2) by simp
    from "3.hyps"[of ?nns ?seen, OF _ a b] False
    show ?thesis by auto
  qed
qed

lemma kdtree_node_search_covers:
  assumes "covers N S (pq, nns, seen)" and "leaves_ok t" and "set (points t) \<subseteq> {0..<N}"
  shows "\<exists>s'. kdtree_node_search t qu pq nns seen pnts D mindsq = Inr s' \<and>
              covers N (S \<union> set (points t)) s'"
proof -
  let ?L = "leaf_of qu t"
  let ?F = "frontier qu mindsq t"
  let ?r = "scan_leaf qu pnts D ?L (nns, seen)"
  have c: "length seen = N" "\<forall>i<N. seen ! i \<longrightarrow> i \<in> fst ` set nns"
    "\<forall>e\<in>set pq. leaves_ok (snd e) \<and> set (points (snd e)) \<subseteq> {0..<N}"
    "S \<subseteq> fst ` set nns \<union> pq_points pq"
    using assms(1) by (simp_all add: covers_def)
  have pts: "set (points t) = set ?L \<union> pq_points ?F"
    by (rule points_leaf_frontier)
  have inr: "\<forall>i\<in>set ?L. i < length seen"
    using assms(3) pts c(1) by auto
  have sc: "set ?L \<union> fst ` set nns \<subseteq> fst ` set (fst ?r)"
    "length (snd ?r) = length seen"
    "\<forall>i<length seen. snd ?r ! i \<longrightarrow> i \<in> fst ` set (fst ?r)"
    using scan_leaf_covers[of seen nns ?L qu pnts D] c(1,2) inr by simp_all
  have ne: "?L \<noteq> []"
    by (rule leaf_of_nonempty[OF assms(2)])
  have K: "kdtree_node_search t qu pq nns seen pnts D mindsq = Inr (?F @ pq, fst ?r, snd ?r)"
    by (rule kdtree_node_search_nonempty[OF ne])
  have f: "\<forall>e\<in>set ?F. leaves_ok (snd e) \<and> set (points (snd e)) \<subseteq> {0..<N}"
  proof
    fix e
    assume e: "e \<in> set ?F"
    have "set (points (snd e)) \<subseteq> pq_points ?F"
      using e by (auto simp: pq_points_def)
    then show "leaves_ok (snd e) \<and> set (points (snd e)) \<subseteq> {0..<N}"
      using frontier_leaves_ok[OF assms(2) e] pts assms(3) by auto
  qed
  have "covers N (S \<union> set (points t)) (?F @ pq, fst ?r, snd ?r)"
    unfolding covers_def prod.case
  proof (intro conjI)
    show "length (snd ?r) = N"
      using sc(2) c(1) by simp
    show "\<forall>i<N. snd ?r ! i \<longrightarrow> i \<in> fst ` set (fst ?r)"
      using sc(3) c(1) by simp
    show "\<forall>e\<in>set (?F @ pq). leaves_ok (snd e) \<and> set (points (snd e)) \<subseteq> {0..<N}"
      using f c(3) by auto
    show "S \<union> set (points t) \<subseteq> fst ` set (fst ?r) \<union> pq_points (?F @ pq)"
      unfolding pq_points_append pts using c(4) sc(1) by blast
  qed
  then show ?thesis
    using K by blast
qed

lemma search_trees_covers:
  assumes "covers N S s" and "\<forall>t\<in>set ts. leaves_ok t \<and> set (points t) \<subseteq> {0..<N}"
  shows "\<exists>s'. search_trees qu pnts D ts s = Inr s' \<and> covers N (S \<union> (\<Union>t\<in>set ts. set (points t))) s'"
  using assms
proof (induction ts arbitrary: s S)
  case Nil
  then show ?case by simp
next
  case (Cons t ts)
  obtain pq nns seen where s: "s = (pq, nns, seen)"
    by (cases s) auto
  have t: "leaves_ok t" "set (points t) \<subseteq> {0..<N}"
    and ts: "\<forall>t\<in>set ts. leaves_ok t \<and> set (points t) \<subseteq> {0..<N}"
    using Cons.prems(2) by simp_all
  obtain s1 where K: "kdtree_node_search t qu pq nns seen pnts D 0 = Inr s1"
    and c1: "covers N (S \<union> set (points t)) s1"
    using kdtree_node_search_covers[OF Cons.prems(1)[unfolded s] t] by blast
  obtain s' where R: "search_trees qu pnts D ts s1 = Inr s'"
    and c': "covers N (S \<union> set (points t) \<union> (\<Union>t\<in>set ts. set (points t))) s'"
    using Cons.IH[OF c1 ts] by blast
  have "search_trees qu pnts D (t # ts) s = Inr s'"
    using K R by (simp add: s)
  moreover have "S \<union> (\<Union>t\<in>set (t # ts). set (points t))
                   = S \<union> set (points t) \<union> (\<Union>t\<in>set ts. set (points t))"
    by auto
  ultimately show ?case
    using c' by simp
qed

text \<open>
  The draining loop returns when it keeps an invariant under which the queue is not empty
  as long as the budget is not met and the search of the popped subtree succeeds.
\<close>

lemma drain_total:
  assumes "I s"
    and "\<And>pq nns seen. I (pq, nns, seen) \<Longrightarrow> length nns < nchecks \<Longrightarrow>
           pq \<noteq> [] \<and>
           (\<exists>s''. kdtree_node_search (snd (pq_top addr pq)) qu (pq_pop addr pq) nns seen pnts D
                     (fst (pq_top addr pq)) = Inr s'' \<and> I s'')"
  shows "\<exists>s'. drain addr qu pnts D nchecks s = Inr s'"
  using assms
proof (induction addr qu pnts D nchecks s rule: drain.induct)
  case (1 addr qu pnts D nchecks pq nns seen)
  show ?case
  proof (cases "length nns < nchecks")
    case False
    then show ?thesis
      by (subst drain.simps) simp
  next
    case True
    from "1.prems"(2)[OF "1.prems"(1) True] obtain s'' where
      ne: "pq \<noteq> []"
      and K: "kdtree_node_search (snd (pq_top addr pq)) qu (pq_pop addr pq) nns seen pnts D
                (fst (pq_top addr pq)) = Inr s''"
      and I'': "I s''"
      by blast
    have "\<exists>s'. drain addr qu pnts D nchecks s'' = Inr s'"
    proof (rule "1.IH"[OF True ne refl refl K I''])
      fix pq1 nns1 seen1
      assume "I (pq1, nns1, seen1)" "length nns1 < nchecks"
      then show "pq1 \<noteq> [] \<and>
           (\<exists>s''. kdtree_node_search (snd (pq_top addr pq1)) qu (pq_pop addr pq1) nns1 seen1
                     pnts D (fst (pq_top addr pq1)) = Inr s'' \<and> I s'')"
        by (rule "1.prems"(2))
    qed
    then show ?thesis
      using True ne K by (subst drain.simps) (simp add: Let_def)
  qed
qed

lemma build_trees_leaves_ok:
  "build_trees pnts D ntrees inds state = Inr (trees, inds', state') \<Longrightarrow> inds \<noteq> []
     \<Longrightarrow> \<forall>t\<in>set trees. leaves_ok t"
proof (induction ntrees arbitrary: inds state trees inds' state')
  case 0
  then show ?case by simp
next
  case (Suc n)
  from Suc.prems(1) obtain t inds1 st1 ts where
    K: "kdtree_node_new pnts inds D state = Inr (t, inds1, st1)"
    and B: "build_trees pnts D n inds1 st1 = Inr (ts, inds', state')"
    and trees: "trees = t # ts"
    by (auto split: sum.splits prod.splits)
  have "mset inds1 = mset inds"
    using kdtree_node_new_points[OF K] by simp
  then have ne: "inds1 \<noteq> []"
    using Suc.prems(2) by (metis mset_zero_iff)
  show ?case
    using Suc.IH[OF B ne] kdtree_node_new_leaves_ok[OF K Suc.prems(2)] trees by simp
qed

lemma build_trees_Inr:
  "1 \<le> D \<Longrightarrow> \<exists>trees inds' state'.
     build_trees pnts D ntrees inds state = Inr (trees, inds', state')"
proof (induction ntrees arbitrary: inds state)
  case 0
  show ?case by simp
next
  case (Suc n)
  obtain t inds1 st1 where K: "kdtree_node_new pnts inds D state = Inr (t, inds1, st1)"
    using kdtree_node_new_Inr[OF Suc.prems] by blast
  obtain ts inds2 st2 where B: "build_trees pnts D n inds1 st1 = Inr (ts, inds2, st2)"
    using Suc.IH[OF Suc.prems] by blast
  show ?case
    by (simp add: K B)
qed

lemma nn_kdtree_new_total:
  "1 \<le> D \<Longrightarrow> \<exists>idx. nn_kdtree_new rk_seed pnts N D ntrees seed = Inr idx"
proof -
  assume "1 \<le> D"
  then obtain trees inds state where
    "build_trees pnts D ntrees [0..<N] (rk_seed seed) = Inr (trees, inds, state)"
    using build_trees_Inr by blast
  then show ?thesis
    by (simp add: nn_kdtree_new_def)
qed

lemma covers_nonempty_queue:
  assumes "covers N {0..<N} (pq, nns, seen)" and "length nns < N"
  shows "pq \<noteq> []"
proof
  assume "pq = []"
  then have "{0..<N} \<subseteq> fst ` set nns"
    using assms(1) by (simp add: covers_def pq_points_def)
  then have "card {0..<N} \<le> card (fst ` set nns)"
    by (intro card_mono) simp_all
  also have "\<dots> \<le> length nns"
    by (metis card_image_le card_length le_trans List.finite_set)
  finally show False
    using assms(2) by simp
qed

text \<open>
  With at least one tree over at least one point the search returns whenever the raised
  budget does not exceed the number of points.
\<close>

lemma search_cands_total:
  assumes "nn_kdtree_new rk_seed pnts N D ntrees seed = Inr idx"
    and "1 \<le> N" and "1 \<le> ntrees" and "max numnn nchecks \<le> N"
  shows "\<exists>nns. search_cands addr idx qu numnn nchecks = Inr nns"
proof -
  from assms(1) obtain inds state where
    B: "build_trees pnts D ntrees [0..<N] (rk_seed seed) = Inr (trees_of idx, inds, state)"
    and idx: "N_of idx = N" "D_of idx = D" "pnts_of idx = pnts"
    by (rule nn_kdtree_new_Inr)
  have ne: "[0..<N] \<noteq> []"
    using assms(2) by simp
  have ok: "\<forall>t\<in>set (trees_of idx). leaves_ok t"
    by (rule build_trees_leaves_ok[OF B ne])
  have pts: "\<forall>t\<in>set (trees_of idx). set (points t) = {0..<N}"
  proof
    fix t
    assume "t \<in> set (trees_of idx)"
    then have "mset (points t) = mset [0..<N]"
      using build_trees_perm[OF B] by blast
    then have "set (points t) = set [0..<N]"
      by (rule mset_eq_setD)
    then show "set (points t) = {0..<N}"
      by simp
  qed
  have some: "trees_of idx \<noteq> []"
    using build_trees_perm[OF B] assms(3) by auto
  have c0: "covers N {} ([], [], replicate N False)"
    by (simp add: covers_def)
  have "\<forall>t\<in>set (trees_of idx). leaves_ok t \<and> set (points t) \<subseteq> {0..<N}"
    using ok pts by simp
  from search_trees_covers[OF c0 this, of qu pnts D] obtain s where
    S: "search_trees qu pnts D (trees_of idx) ([], [], replicate N False) = Inr s"
    and c: "covers N ({} \<union> (\<Union>t\<in>set (trees_of idx). set (points t))) s"
    by blast
  have "(\<Union>t\<in>set (trees_of idx). set (points t)) = {0..<N}"
    using pts some by (cases "trees_of idx") auto
  then have cs: "covers N {0..<N} s"
    using c by simp
  have step: "pq \<noteq> [] \<and>
       (\<exists>s''. kdtree_node_search (snd (pq_top addr pq)) qu (pq_pop addr pq) nns seen pnts D
                 (fst (pq_top addr pq)) = Inr s'' \<and> covers N {0..<N} s'')"
    if inv: "covers N {0..<N} (pq, nns, seen)" and lt: "length nns < max numnn nchecks"
    for pq nns seen
  proof -
    have q: "pq \<noteq> []"
      using covers_nonempty_queue[OF inv] lt assms(4) by simp
    let ?e = "pq_top addr pq"
    have e: "leaves_ok (snd ?e)" "set (points (snd ?e)) \<subseteq> {0..<N}"
      using inv pq_top_in[OF q, of addr] by (auto simp: covers_def)
    have rest: "covers N ({0..<N} - set (points (snd ?e))) (pq_pop addr pq, nns, seen)"
      using inv pq_points_pop[OF q, of addr]
      by (auto simp: covers_def pq_pop_def dest: notin_set_remove1)
    from kdtree_node_search_covers[OF rest e, of qu pnts D "fst ?e"] obtain s'' where
      K: "kdtree_node_search (snd ?e) qu (pq_pop addr pq) nns seen pnts D (fst ?e) = Inr s''"
      and c'': "covers N ({0..<N} - set (points (snd ?e)) \<union> set (points (snd ?e))) s''"
      by blast
    have "{0..<N} - set (points (snd ?e)) \<union> set (points (snd ?e)) = {0..<N}"
      using e(2) by auto
    then show ?thesis
      using q K c'' by simp
  qed
  obtain s' where "drain addr qu pnts D (max numnn nchecks) s = Inr s'"
    using drain_total[of "covers N {0..<N}" s "max numnn nchecks" addr qu pnts D, OF cs step]
    by blast
  moreover have "(if nchecks < numnn then numnn else nchecks) = max numnn nchecks"
    by (simp add: max_def)
  ultimately show ?thesis
    using S by (simp add: search_cands_def idx split: prod.splits)
qed

lemma search_cands_length:
  assumes "search_cands addr idx qu numnn nchecks = Inr nns"
  shows "max numnn nchecks \<le> length nns"
proof -
  from assms obtain s pq seen where
    "drain addr qu (pnts_of idx) (D_of idx) (max numnn nchecks) s = Inr (pq, nns, seen)"
    by (rule search_cands_Inr)
  from drain_invariant[OF this, of "\<lambda>s. True"] show ?thesis
    by simp
qed

lemma nn_kdtree_search_length:
  assumes "nn_kdtree_search addr idx qu numnn nchecks = Inr rs"
  shows "length rs = numnn"
proof -
  from assms obtain nns where
    c: "search_cands addr idx qu numnn nchecks = Inr nns"
    and rs: "rs = take (min numnn (if nchecks < numnn then numnn else nchecks))
                    (sort_key snd nns)"
    by (auto simp: nn_kdtree_search_def split: sum.splits)
  have "numnn \<le> length nns"
    using search_cands_length[OF c] by simp
  then show ?thesis
    unfolding rs by simp
qed

text \<open>
  C2 (as amended). For every index built with at least one tree over \<open>N \<ge> 1\<close> points of
  at least one dimension, and every query with \<open>k \<le> N\<close> and a budget of at most \<open>N\<close>,
  the search returns exactly \<open>k = min k N\<close> pairs. And whenever a search returns, of
  whatever index and with whatever \<open>k\<close> and budget, it returns exactly \<open>k\<close> pairs.
\<close>

theorem search_returns_k_results:
  assumes "1 \<le> D" and "1 \<le> N" and "1 \<le> ntrees" and "numnn \<le> N" and "nchecks \<le> N"
  shows "(\<exists>idx rs. nn_kdtree_new rk_seed pnts N D ntrees seed = Inr idx \<and>
                  nn_kdtree_search addr idx qu numnn nchecks = Inr rs \<and>
                  length rs = numnn \<and> numnn = min numnn N) \<and>
         (nn_kdtree_search addr' idx' qu' numnn' nchecks' = Inr rs' \<longrightarrow> length rs' = numnn')"
proof (rule conjI)
  obtain idx where B: "nn_kdtree_new rk_seed pnts N D ntrees seed = Inr idx"
    using nn_kdtree_new_total[OF assms(1)] by blast
  have "max numnn nchecks \<le> N"
    using assms(4,5) by simp
  from search_cands_total[OF B assms(2,3) this] obtain nns where
    "search_cands addr idx qu numnn nchecks = Inr nns"
    by blast
  then obtain rs where S: "nn_kdtree_search addr idx qu numnn nchecks = Inr rs"
    by (simp add: nn_kdtree_search_def)
  show "\<exists>idx rs. nn_kdtree_new rk_seed pnts N D ntrees seed = Inr idx \<and>
                 nn_kdtree_search addr idx qu numnn nchecks = Inr rs \<and>
                 length rs = numnn \<and> numnn = min numnn N"
    using B S nn_kdtree_search_length[OF S] assms(4) by auto
  show "nn_kdtree_search addr' idx' qu' numnn' nchecks' = Inr rs' \<longrightarrow> length rs' = numnn'"
    using nn_kdtree_search_length by blast
qed

lemma one_point_search_two:
  "nn_kdtree_search addr
     \<lparr>trees_of = [Leaf [0]], N_of = 1, D_of = 1, pnts_of = [0::rat], state_of = st\<rparr>
     [0] 2 2 = Inl EmptyQueuePop"
  by (simp add: nn_kdtree_search_def search_cands_def kdtree_node_search_def drain.simps
      dist_l2_def)

text \<open>
  C2 as stated fails on the code: one point, one tree, \<open>k = 2\<close>. The only leaf gives one
  candidate, the budget (raised to 2) is not met, and the loop pops the empty queue: the
  search does not return the one pair \<open>min k N = 1\<close>.
\<close>

theorem fewer_points_than_k_pops_empty_queue:
  "nn_kdtree_new (\<lambda>s. []) [0::rat] 1 1 1 42
     = Inr \<lparr>trees_of = [Leaf [0]], N_of = 1, D_of = 1, pnts_of = [0], state_of = []\<rparr> \<and>
   nn_kdtree_search (\<lambda>n. 0)
     \<lparr>trees_of = [Leaf [0]], N_of = 1, D_of = 1, pnts_of = [0::rat], state_of = []\<rparr>
     [0] 2 2 = Inl EmptyQueuePop \<and>
   min (2::nat) 1 = 1"
proof (intro conjI)
  show "nn_kdtree_new (\<lambda>s. []) [0::rat] 1 1 1 42
     = Inr \<lparr>trees_of = [Leaf [0]], N_of = 1, D_of = 1, pnts_of = [0], state_of = []\<rparr>"
    by (rule nn_kdtree_new_one_point)
  show "nn_kdtree_search (\<lambda>n. 0)
     \<lparr>trees_of = [Leaf [0]], N_of = 1, D_of = 1, pnts_of = [0::rat], state_of = []\<rparr>
     [0] 2 2 = Inl EmptyQueuePop"
    by (rule one_point_search_two)
  show "min (2::nat) 1 = 1"
    by simp
qed

lemma index30_top1_budget9: "nn_kdtree_search (\<lambda>n. 0) index30 [14] 1 9 = Inr [(14, 0)]"
  by code_simp

theorem search_returns_k_results_witness:
  "(1::nat) \<le> 1 \<and> (1::nat) \<le> 30 \<and> (1::nat) \<le> 8 \<and> (3::nat) \<le> 30 \<and> (20::nat) \<le> 30 \<and>
   (\<exists>idx rs. nn_kdtree_new (\<lambda>s. []) line30 30 1 8 42 = Inr idx \<and>
             nn_kdtree_search (\<lambda>n. 0) idx [14] 3 20 = Inr rs \<and>
             length rs = 3 \<and> (3::nat) = min 3 30) \<and>
   nn_kdtree_search (\<lambda>n. 0) index30 [14] 1 9 = Inr [(14, 0)] \<and>
   length [(14::nat, 0::rat)] = 1"
proof -
  have h: "(1::nat) \<le> 1" "(1::nat) \<le> 30" "(1::nat) \<le> 8" "(3::nat) \<le> 30" "(20::nat) \<le> 30"
    by simp_all
  show ?thesis
    using search_returns_k_results[OF h, of "\<lambda>s. []" line30 42 "\<lambda>n. 0" "[14]" "\<lambda>n. 0"
        index30 "[14]" 1 9 "[(14, 0)]"] h index30_top1_budget9
    by blast
qed

section \<open>The bounds of the frontier\<close>

lemma rk_interval_le: "fst (rk_interval mx state) \<le> mx"
  by (cases state) simp_all

lemma choose_split_dim:
  assumes "choose_split pnts inds N D state = Inr ((dd, disc), state')"
  shows "dd < D"
proof -
  have D: "D \<noteq> 0"
    using assms by (cases "D = 0") (simp_all add: choose_split_def)
  define count where "count = min N varest_max_points"
  define sum_x where "sum_x = map (\<lambda>d. \<Sum>n\<leftarrow>[0..<count]. pnts ! (inds ! n * D + d)) [0..<D]"
  define sum_xx where
    "sum_xx = map (\<lambda>d. \<Sum>n\<leftarrow>[0..<count].
                      pnts ! (inds ! n * D + d) * pnts ! (inds ! n * D + d)) [0..<D]"
  define var_dim where
    "var_dim = map (\<lambda>d.
                 (if count \<le> 1 then 0
                  else (sum_xx ! d - (1 / of_nat count) * sum_x ! d * sum_x ! d)
                         / of_nat (count - 1),
                  d)) [0..<D]"
  define r where "r = fst (rk_interval (min varest_max_randsz D - 1) state)"
  have dd: "dd = snd (rev (sort var_dim) ! r)"
    using assms D
    unfolding choose_split_def count_def[symmetric] sum_x_def[symmetric] sum_xx_def[symmetric]
      var_dim_def[symmetric] r_def Let_def
    by (auto split: prod.splits)
  have "r \<le> min varest_max_randsz D - 1"
    unfolding r_def by (rule rk_interval_le)
  then have "r < D"
    using D by (simp add: varest_max_randsz_def)
  then have "r < length (rev (sort var_dim))"
    by (simp add: var_dim_def)
  then have "rev (sort var_dim) ! r \<in> set (rev (sort var_dim))"
    by (rule nth_mem)
  then have "rev (sort var_dim) ! r \<in> set var_dim"
    by simp
  then have "snd (rev (sort var_dim) ! r) \<in> snd ` set var_dim"
    by (rule imageI)
  also have "snd ` set var_dim \<subseteq> {0..<D}"
    unfolding var_dim_def by auto
  finally show ?thesis
    using dd by simp
qed

text \<open>Every discriminant dimension of a built tree is one of the \<open>D\<close> dimensions.\<close>

lemma kdtree_node_new_dims_ok:
  "kdtree_node_new pnts inds D state = Inr (t, inds', state') \<Longrightarrow> dims_ok D t"
proof (induction pnts inds D state arbitrary: t inds' state' rule: kdtree_node_new.induct)
  case (1 pnts inds D state)
  show ?case
  proof (cases "leaf_max_points < length inds")
    case False
    then show ?thesis
      using kdtree_node_new_Leaf[OF "1.prems"] by simp
  next
    case True
    from "1.prems" True obtain dd disc inds1 l st1 lt il st2 rt ir where
      sp: "split_points pnts inds (length inds) D state = Inr (dd, disc, inds1, l, st1)"
      and L: "kdtree_node_new pnts (take l inds1) D st1 = Inr (lt, il, st2)"
      and R: "kdtree_node_new pnts (drop l inds1) D st2 = Inr (rt, ir, state')"
      and t: "t = Internal lt rt disc dd"
      by (rule kdtree_node_new_Internal)
    obtain st where "choose_split pnts inds (length inds) D state = Inr ((dd, disc), st)"
      using sp by (auto simp: split_points_def split: sum.splits prod.splits)
    then have "dd < D"
      by (rule choose_split_dim)
    then show ?thesis
      using "1.IH"(1)[OF True sp refl refl refl refl L]
        "1.IH"(2)[OF True sp refl refl refl refl L refl refl R] t
      by simp
  qed
qed

lemma dist_l2_ge_coordinate:
  assumes "d < D"
  shows "(qu ! d - pnts ! (i * D + d)) * (qu ! d - pnts ! (i * D + d)) \<le> dist_l2 qu pnts D i"
proof -
  let ?f = "\<lambda>d. (qu ! d - pnts ! (i * D + d)) * (qu ! d - pnts ! (i * D + d))"
  have "dist_l2 qu pnts D i = sum ?f {0..<D}"
    unfolding dist_l2_def by (simp add: interv_sum_list_conv_sum_set_nat)
  moreover have "?f d \<le> sum ?f {0..<D}"
    using assms by (intro member_le_sum) simp_all
  ultimately show ?thesis
    by simp
qed

lemma square_mono_gap:
  fixes q p c :: "'a::linordered_field"
  assumes "(q - c < 0 \<and> c \<le> p) \<or> (0 \<le> q - c \<and> p < c)"
  shows "(q - c) * (q - c) \<le> (q - p) * (q - p)"
proof -
  have "\<bar>q - c\<bar> \<le> \<bar>q - p\<bar>"
    using assms by auto
  then have "\<bar>q - c\<bar> * \<bar>q - c\<bar> \<le> \<bar>q - p\<bar> * \<bar>q - p\<bar>"
    by (intro mult_mono) simp_all
  then show ?thesis
    by simp
qed

lemma frontier_bound:
  assumes "split_rule pnts D t" and "dims_ok D t"
    and "(b, n) \<in> set (frontier qu mindsq t)" and "i \<in> set (points n)"
  shows "\<exists>diff. b = mindsq + diff * diff \<and> diff * diff \<le> dist_l2 qu pnts D i"
  using assms
proof (induction t)
  case (Leaf cur_inds)
  then show ?case by simp
next
  case (Internal left right disc disc_dim)
  let ?diff = "qu ! disc_dim - disc"
  have dd: "disc_dim < D"
    using Internal.prems(2) by simp
  have coord: "(qu ! disc_dim - pnts ! (i * D + disc_dim)) *
               (qu ! disc_dim - pnts ! (i * D + disc_dim)) \<le> dist_l2 qu pnts D i"
    by (rule dist_l2_ge_coordinate[OF dd])
  show ?case
  proof (cases "?diff < 0")
    case True
    then have "(b, n) \<in> set (frontier qu mindsq left) \<or> (b, n) = (mindsq + ?diff * ?diff, right)"
      using Internal.prems(3) by (auto simp: Let_def)
    then show ?thesis
    proof
      assume "(b, n) \<in> set (frontier qu mindsq left)"
      then show ?thesis
        using Internal.IH(1) Internal.prems(1,2,4) by simp
    next
      assume e: "(b, n) = (mindsq + ?diff * ?diff, right)"
      then have "disc \<le> pnts ! (i * D + disc_dim)"
        using Internal.prems(1,4) by simp
      then have "?diff * ?diff \<le> (qu ! disc_dim - pnts ! (i * D + disc_dim)) *
                                  (qu ! disc_dim - pnts ! (i * D + disc_dim))"
        using True by (intro square_mono_gap) simp
      then show ?thesis
        using e coord by (intro exI[of _ ?diff]) simp
    qed
  next
    case False
    then have "(b, n) \<in> set (frontier qu mindsq right) \<or> (b, n) = (mindsq + ?diff * ?diff, left)"
      using Internal.prems(3) by (auto simp: Let_def)
    then show ?thesis
    proof
      assume "(b, n) \<in> set (frontier qu mindsq right)"
      then show ?thesis
        using Internal.IH(2) Internal.prems(1,2,4) by simp
    next
      assume e: "(b, n) = (mindsq + ?diff * ?diff, left)"
      then have "pnts ! (i * D + disc_dim) < disc"
        using Internal.prems(1,4) by simp
      then have "?diff * ?diff \<le> (qu ! disc_dim - pnts ! (i * D + disc_dim)) *
                                  (qu ! disc_dim - pnts ! (i * D + disc_dim))"
        using False by (intro square_mono_gap) simp
      then show ?thesis
        using e coord by (intro exI[of _ ?diff]) simp
    qed
  qed
qed

text \<open>
  C4 (as amended). A descent that starts with the accumulated bound \<open>mindsq\<close> pushes
  entries \<open>(b, node)\<close> with \<open>b = mindsq + diff * diff\<close>. In a tree that obeys the
  partition rule, \<open>diff * diff\<close> is a lower bound of the true squared distance
  from the query to every point of the node's subtree. So every entry pushed during the
  first descent of a tree, where \<open>mindsq = 0\<close>, is a valid lower bound. (The dimensions
  of a built tree are in range, see \<open>kdtree_node_new_dims_ok\<close>; the partition rule holds
  in a built tree but for the nodes of the fallback.)
\<close>

theorem pushed_bound_valid_above_base:
  assumes "split_rule pnts D t" and "dims_ok D t"
    and "(b, n) \<in> set (snd (descend qu mindsq t []))" and "i \<in> set (points n)"
  shows "(\<exists>diff. b = mindsq + diff * diff \<and> diff * diff \<le> dist_l2 qu pnts D i) \<and>
         (mindsq = 0 \<longrightarrow> b \<le> dist_l2 qu pnts D i)"
proof -
  have "(b, n) \<in> set (frontier qu mindsq t)"
    using assms(3) by (simp add: descend_eq)
  from frontier_bound[OF assms(1,2) this assms(4)] obtain diff where
    b: "b = mindsq + diff * diff" and d: "diff * diff \<le> dist_l2 qu pnts D i"
    by blast
  have "mindsq = 0 \<longrightarrow> b \<le> dist_l2 qu pnts D i"
    using b d by simp
  then show ?thesis
    using b d by blast
qed

lemma index30_frontier_budget9:
  "(case search_trees [14] line30 1 (trees_of index30) ([], [], replicate 30 False) of
      Inl e \<Rightarrow> Inl e
    | Inr s \<Rightarrow> drain (\<lambda>n. 0) [14] line30 1 9 s)
   = Inr ([(257 / 4, Leaf [24, 25, 26, 27, 28, 29, 23, 22]), (49, Leaf [0, 1, 2, 3, 4, 5, 6])],
          [(8, 36), (9, 25), (10, 16), (11, 9), (12, 4), (13, 1), (14, 0), (7, 49),
           (16, 4), (17, 9), (18, 16), (19, 25), (20, 36), (21, 49), (15, 1)],
          [False, False, False, False, False, False, False, False, True, True,
           True, True, True, True, True, False, True, True, True, True, True,
           True, False, False, False, False, False, False, False, False])"
  by code_simp

lemma line30_dist_22: "dist_l2 [14] line30 1 22 = 64"
  by code_simp

text \<open>
  C4 as stated fails on the code: the thirty points on a line, the query at 14, \<open>k = 1\<close>
  and budget 9. The first descent pushes the right half of the tree with bound \<open>1/4\<close>;
  the draining loop pops it and descends in it with that bound as base, and pushes the
  leaf of the points 22 to 29 with bound \<open>1/4 + 64\<close>, the sum of two gaps along the same
  axis. Point 22 of that leaf is at squared distance 64 from the query.
\<close>

theorem accumulated_bound_exceeds_distance:
  "nn_kdtree_new (\<lambda>s. []) line30 30 1 1 42 = Inr index30 \<and>
   (case search_trees [14] line30 1 (trees_of index30) ([], [], replicate 30 False) of
      Inl e \<Rightarrow> Inl e
    | Inr s \<Rightarrow> drain (\<lambda>n. 0) [14] line30 1 9 s)
   = Inr ([(257 / 4, Leaf [24, 25, 26, 27, 28, 29, 23, 22]), (49, Leaf [0, 1, 2, 3, 4, 5, 6])],
          [(8, 36), (9, 25), (10, 16), (11, 9), (12, 4), (13, 1), (14, 0), (7, 49),
           (16, 4), (17, 9), (18, 16), (19, 25), (20, 36), (21, 49), (15, 1)],
          [False, False, False, False, False, False, False, False, True, True,
           True, True, True, True, True, False, True, True, True, True, True,
           True, False, False, False, False, False, False, False, False]) \<and>
   22 \<in> set (points (Leaf [24, 25, 26, 27, 28, 29, 23, 22] :: rat kdtree_node)) \<and>
   dist_l2 [14] line30 1 22 = 64 \<and> (64::rat) < 257 / 4"
proof (intro conjI)
  show "nn_kdtree_new (\<lambda>s. []) line30 30 1 1 42 = Inr index30"
    by (rule build_index30)
  show "(case search_trees [14] line30 1 (trees_of index30) ([], [], replicate 30 False) of
      Inl e \<Rightarrow> Inl e
    | Inr s \<Rightarrow> drain (\<lambda>n. 0) [14] line30 1 9 s)
   = Inr ([(257 / 4, Leaf [24, 25, 26, 27, 28, 29, 23, 22]), (49, Leaf [0, 1, 2, 3, 4, 5, 6])],
          [(8, 36), (9, 25), (10, 16), (11, 9), (12, 4), (13, 1), (14, 0), (7, 49),
           (16, 4), (17, 9), (18, 16), (19, 25), (20, 36), (21, 49), (15, 1)],
          [False, False, False, False, False, False, False, False, True, True,
           True, True, True, True, True, False, True, True, True, True, True,
           True, False, False, False, False, False, False, False, False])"
    by (rule index30_frontier_budget9)
  show "22 \<in> set (points (Leaf [24, 25, 26, 27, 28, 29, 23, 22] :: rat kdtree_node))"
    by simp
  show "dist_l2 [14] line30 1 22 = 64"
    by (rule line30_dist_22)
  show "(64::rat) < 257 / 4"
    by simp
qed

lemma tree30_split_rule: "split_rule line30 1 tree30"
  by code_simp

lemma tree30_dims_ok: "dims_ok 1 tree30"
  by code_simp

lemma tree30_first_descent:
  "(1 / 4, Internal (Leaf [16, 17, 18, 19, 20, 21, 15]) (Leaf [24, 25, 26, 27, 28, 29, 23, 22])
             22 0)
     \<in> set (snd (descend [14] 0 tree30 []))"
  by code_simp

lemma tree30_right_holds_22:
  "22 \<in> set (points (Internal (Leaf [16, 17, 18, 19, 20, 21, 15])
                       (Leaf [24, 25, 26, 27, 28, 29, 23, 22]) (22::rat) 0))"
  by simp

theorem pushed_bound_valid_above_base_witness:
  "split_rule line30 1 tree30 \<and> dims_ok 1 tree30 \<and>
   (1 / 4, Internal (Leaf [16, 17, 18, 19, 20, 21, 15]) (Leaf [24, 25, 26, 27, 28, 29, 23, 22])
             22 0)
     \<in> set (snd (descend [14] 0 tree30 [])) \<and>
   22 \<in> set (points (Internal (Leaf [16, 17, 18, 19, 20, 21, 15])
                       (Leaf [24, 25, 26, 27, 28, 29, 23, 22]) (22::rat) 0)) \<and>
   (\<exists>diff::rat. 1 / 4 = 0 + diff * diff \<and> diff * diff \<le> dist_l2 [14] line30 1 22) \<and>
   (1 / 4 :: rat) \<le> dist_l2 [14] line30 1 22"
  using pushed_bound_valid_above_base[OF tree30_split_rule tree30_dims_ok tree30_first_descent
      tree30_right_holds_22]
    tree30_split_rule tree30_dims_ok tree30_first_descent tree30_right_holds_22
  by simp

section \<open>What the result of a search depends on\<close>

lemma subnodes_self: "t \<in> set (subnodes t)"
  by (cases t) simp_all

lemma subnodes_trans:
  "m \<in> set (subnodes n) \<Longrightarrow> n \<in> set (subnodes t) \<Longrightarrow> m \<in> set (subnodes t)"
  by (induction t) auto

lemma frontier_subnodes: "e \<in> set (frontier qu mindsq t) \<Longrightarrow> snd e \<in> set (subnodes t)"
  by (induction t) (auto simp: Let_def subnodes_self split: if_splits)

lemma arg_min_list_order_cong:
  assumes "xs \<noteq> []" and "\<forall>x\<in>set xs. \<forall>y\<in>set xs. (f x \<le> f y) = (g x \<le> g y)"
  shows "arg_min_list f xs = arg_min_list g xs"
  using assms
proof (induction xs rule: induct_list012)
  case 1
  then show ?case by simp
next
  case (2 x)
  show ?case by simp
next
  case (3 x y zs)
  have eq: "arg_min_list f (y # zs) = arg_min_list g (y # zs)"
    using "3.IH"(2) "3.prems" by simp
  have "arg_min_list g (y # zs) \<in> set (y # zs)"
    by (rule arg_min_list_in) simp
  then have "arg_min_list g (y # zs) \<in> set (x # y # zs)" and "x \<in> set (x # y # zs)"
    by simp_all
  then have "(f x \<le> f (arg_min_list g (y # zs))) = (g x \<le> g (arg_min_list g (y # zs)))"
    using "3.prems"(2) by blast
  then show ?case
    using eq by (simp add: Let_def)
qed

lemma pq_top_order_cong:
  assumes "pq \<noteq> []" and "\<forall>e\<in>set pq. snd e \<in> U"
    and "\<forall>n\<in>U. \<forall>m\<in>U. (addr1 n \<le> addr1 m) = (addr2 n \<le> addr2 m)"
  shows "pq_top addr1 pq = pq_top addr2 pq"
  unfolding pq_top_def
proof (rule arg_min_list_order_cong[OF assms(1)], intro ballI)
  fix x y
  assume "x \<in> set pq" "y \<in> set pq"
  then have "(addr1 (snd x) \<le> addr1 (snd y)) = (addr2 (snd x) \<le> addr2 (snd y))"
    using assms by blast
  then show "((case x of (b, n) \<Rightarrow> (b, addr1 n)) \<le> (case y of (b, n) \<Rightarrow> (b, addr1 n)))
           = ((case x of (b, n) \<Rightarrow> (b, addr2 n)) \<le> (case y of (b, n) \<Rightarrow> (b, addr2 n)))"
    by (cases x; cases y) (simp add: less_eq_prod_def)
qed

lemma drain_order_cong:
  assumes "\<forall>e\<in>set (fst s). snd e \<in> U"
    and "\<forall>n\<in>U. set (subnodes n) \<subseteq> U"
    and "\<forall>n\<in>U. \<forall>m\<in>U. (addr1 n \<le> addr1 m) = (addr2 n \<le> addr2 m)"
  shows "drain addr1 qu pnts D nchecks s = drain addr2 qu pnts D nchecks s"
  using assms
proof (induction addr1 qu pnts D nchecks s rule: drain.induct)
  case (1 addr1 qu pnts D nchecks pq nns seen)
  show ?case
  proof (cases "length nns < nchecks \<and> pq \<noteq> []")
    case False
    then show ?thesis
      by (subst (1 2) drain.simps) auto
  next
    case True
    then have lt: "length nns < nchecks" and ne: "pq \<noteq> []"
      by simp_all
    have inU: "\<forall>e\<in>set pq. snd e \<in> U"
      using "1.prems"(1) by simp
    have top: "pq_top addr1 pq = pq_top addr2 pq"
      by (rule pq_top_order_cong[OF ne inU "1.prems"(3)])
    then have pop: "pq_pop addr1 pq = pq_pop addr2 pq"
      by (simp add: pq_pop_def)
    let ?K = "kdtree_node_search (snd (pq_top addr1 pq)) qu (pq_pop addr1 pq) nns seen pnts D
                (fst (pq_top addr1 pq))"
    show ?thesis
    proof (cases ?K)
      case (Inl e)
      then show ?thesis
        using lt ne top pop by (subst (1 2) drain.simps) (simp add: Let_def)
    next
      case (Inr s'')
      obtain pq2 nns2 seen2 where s'': "s'' = (pq2, nns2, seen2)"
        by (cases s'') auto
      have pq2: "pq2 = frontier qu (fst (pq_top addr1 pq)) (snd (pq_top addr1 pq))
                         @ pq_pop addr1 pq"
        using kdtree_node_search_Inr[OF Inr[unfolded s'']] by simp
      have t: "snd (pq_top addr1 pq) \<in> U"
        using inU pq_top_in[OF ne] by blast
      have "\<forall>e\<in>set (fst s''). snd e \<in> U"
        unfolding s'' fst_conv pq2
      proof
        fix e
        assume "e \<in> set (frontier qu (fst (pq_top addr1 pq)) (snd (pq_top addr1 pq))
                           @ pq_pop addr1 pq)"
        then consider
          "e \<in> set (frontier qu (fst (pq_top addr1 pq)) (snd (pq_top addr1 pq)))"
          | "e \<in> set (pq_pop addr1 pq)"
          by auto
        then show "snd e \<in> U"
        proof cases
          case 1
          then show ?thesis
            using frontier_subnodes t "1.prems"(2) by blast
        next
          case 2
          then show ?thesis
            using inU unfolding pq_pop_def by (auto dest: notin_set_remove1)
        qed
      qed
      from "1.IH"[OF lt ne refl refl Inr this "1.prems"(2,3)]
      have "drain addr1 qu pnts D nchecks s'' = drain addr2 qu pnts D nchecks s''" .
      then show ?thesis
        using lt ne top pop Inr by (subst (1 2) drain.simps) (simp add: Let_def)
    qed
  qed
qed

lemma search_trees_subnodes:
  assumes "search_trees qu pnts D ts s = Inr s'" and "\<forall>e\<in>set (fst s). snd e \<in> U"
    and "\<forall>t\<in>set ts. set (subnodes t) \<subseteq> U"
  shows "\<forall>e\<in>set (fst s'). snd e \<in> U"
  using assms
proof (induction ts arbitrary: s)
  case Nil
  then show ?case by simp
next
  case (Cons t ts)
  obtain pq nns seen where s: "s = (pq, nns, seen)"
    by (cases s) auto
  from Cons.prems(1) obtain pq1 nns1 seen1 where
    K: "kdtree_node_search t qu pq nns seen pnts D 0 = Inr (pq1, nns1, seen1)"
    and R: "search_trees qu pnts D ts (pq1, nns1, seen1) = Inr s'"
    unfolding s by (auto split: sum.splits)
  have pq1: "pq1 = frontier qu 0 t @ pq"
    using kdtree_node_search_Inr[OF K] by simp
  have "\<forall>e\<in>set (frontier qu 0 t). snd e \<in> U"
    using frontier_subnodes[of _ qu 0 t] Cons.prems(3) by auto
  then have "\<forall>e\<in>set (fst (pq1, nns1, seen1)). snd e \<in> U"
    using Cons.prems(2) unfolding pq1 s by auto
  from Cons.IH[OF R this] Cons.prems(3) show ?case
    by simp
qed

lemma nn_kdtree_search_order_cong:
  assumes "\<forall>n\<in>set (index_nodes idx). \<forall>m\<in>set (index_nodes idx).
             (addr1 n \<le> addr1 m) = (addr2 n \<le> addr2 m)"
  shows "nn_kdtree_search addr1 idx qu numnn nchecks
           = nn_kdtree_search addr2 idx qu numnn nchecks"
proof -
  let ?U = "set (index_nodes idx)"
  let ?S = "search_trees qu (pnts_of idx) (D_of idx) (trees_of idx)
              ([], [], replicate (N_of idx) False)"
  have closed: "\<forall>n\<in>?U. set (subnodes n) \<subseteq> ?U"
    unfolding index_nodes_def by (auto intro: subnodes_trans)
  have trees: "\<forall>t\<in>set (trees_of idx). set (subnodes t) \<subseteq> ?U"
    unfolding index_nodes_def by auto
  have "search_cands addr1 idx qu numnn nchecks = search_cands addr2 idx qu numnn nchecks"
  proof (cases ?S)
    case (Inl e)
    then show ?thesis
      by (simp add: search_cands_def)
  next
    case (Inr s)
    have "\<forall>e\<in>set (fst s). snd e \<in> ?U"
      by (rule search_trees_subnodes[OF Inr _ trees]) simp
    from drain_order_cong[OF this closed assms]
    show ?thesis
      using Inr by (simp add: search_cands_def Let_def)
  qed
  then show ?thesis
    by (simp add: nn_kdtree_search_def)
qed

text \<open>
  C9 (as amended). Two builds from the same points, seed and tree count give the same
  index, and two searches of it with the same query, \<open>k\<close> and budget give the same result
  whenever the nodes lie in the same relative order in memory: the result is a function
  of the points, the seed, the tree count, the query, \<open>k\<close>, the budget and the order of
  the addresses of the nodes, by which the queue orders entries of equal bound.
\<close>

theorem search_deterministic_up_to_address_order:
  assumes "nn_kdtree_new rk_seed pnts N D ntrees seed = Inr idx1"
    and "nn_kdtree_new rk_seed pnts N D ntrees seed = Inr idx2"
    and "\<forall>n\<in>set (index_nodes idx1). \<forall>m\<in>set (index_nodes idx1).
           (addr1 n \<le> addr1 m) = (addr2 n \<le> addr2 m)"
  shows "idx1 = idx2 \<and>
         nn_kdtree_search addr1 idx1 qu numnn nchecks
           = nn_kdtree_search addr2 idx2 qu numnn nchecks"
proof -
  have "idx1 = idx2"
    using assms(1,2) by simp
  then show ?thesis
    using nn_kdtree_search_order_cong[OF assms(3)] by simp
qed

lemma index30_ties_small_leaf_first:
  "nn_kdtree_search (\<lambda>n. length (points n)) index30 [29 / 2] 16 16
     = Inr [(15, 1 / 4), (14, 1 / 4), (16, 9 / 4), (13, 9 / 4), (17, 25 / 4), (12, 25 / 4),
            (18, 49 / 4), (11, 49 / 4), (19, 81 / 4), (10, 81 / 4), (20, 121 / 4),
            (9, 121 / 4), (21, 169 / 4), (8, 169 / 4), (7, 225 / 4), (6, 289 / 4)]"
  by code_simp

lemma index30_ties_large_leaf_first:
  "nn_kdtree_search (\<lambda>n. 100 - length (points n)) index30 [29 / 2] 16 16
     = Inr [(15, 1 / 4), (14, 1 / 4), (16, 9 / 4), (13, 9 / 4), (17, 25 / 4), (12, 25 / 4),
            (18, 49 / 4), (11, 49 / 4), (19, 81 / 4), (10, 81 / 4), (20, 121 / 4),
            (9, 121 / 4), (21, 169 / 4), (8, 169 / 4), (7, 225 / 4), (22, 225 / 4)]"
  by code_simp

text \<open>
  C9 as stated fails on the code: the thirty points on a line, one tree, the query at
  \<open>29/2\<close>, \<open>k = 16\<close> and budget 16. After fifteen points are scored the queue holds the
  two outer leaves with the same bound \<open>225/4\<close>, and the address of the node decides
  which is searched: with the leaf of the points 0 to 6 at the lower address the
  sixteenth result is point 6, with the leaf of the points 22 to 29 at the lower address
  it is point 22.
\<close>

theorem equal_bounds_resolved_by_address:
  "nn_kdtree_new (\<lambda>s. []) line30 30 1 1 42 = Inr index30 \<and>
   nn_kdtree_search (\<lambda>n. length (points n)) index30 [29 / 2] 16 16
     = Inr [(15, 1 / 4), (14, 1 / 4), (16, 9 / 4), (13, 9 / 4), (17, 25 / 4), (12, 25 / 4),
            (18, 49 / 4), (11, 49 / 4), (19, 81 / 4), (10, 81 / 4), (20, 121 / 4),
            (9, 121 / 4), (21, 169 / 4), (8, 169 / 4), (7, 225 / 4), (6, 289 / 4)] \<and>
   nn_kdtree_search (\<lambda>n. 100 - length (points n)) index30 [29 / 2] 16 16
     = Inr [(15, 1 / 4), (14, 1 / 4), (16, 9 / 4), (13, 9 / 4), (17, 25 / 4), (12, 25 / 4),
            (18, 49 / 4), (11, 49 / 4), (19, 81 / 4), (10, 81 / 4), (20, 121 / 4),
            (9, 121 / 4), (21, 169 / 4), (8, 169 / 4), (7, 225 / 4), (22, 225 / 4)] \<and>
   nn_kdtree_search (\<lambda>n. length (points n)) index30 [29 / 2] 16 16
     \<noteq> nn_kdtree_search (\<lambda>n. 100 - length (points n)) index30 [29 / 2] 16 16"
  using build_index30 index30_ties_small_leaf_first index30_ties_large_leaf_first
  by simp

theorem search_deterministic_up_to_address_order_witness:
  "nn_kdtree_new (\<lambda>s. []) line30 30 1 1 42 = Inr index30 \<and>
   index30 = index30 \<and>
   nn_kdtree_search (\<lambda>n. 2 * length (points n)) index30 [29 / 2] 16 16
     = Inr [(15, 1 / 4), (14, 1 / 4), (16, 9 / 4), (13, 9 / 4), (17, 25 / 4), (12, 25 / 4),
            (18, 49 / 4), (11, 49 / 4), (19, 81 / 4), (10, 81 / 4), (20, 121 / 4),
            (9, 121 / 4), (21, 169 / 4), (8, 169 / 4), (7, 225 / 4), (6, 289 / 4)]"
proof -
  have order: "\<forall>n\<in>set (index_nodes index30). \<forall>m\<in>set (index_nodes index30).
                 (length (points n) \<le> length (points m))
                   = (2 * length (points n) \<le> 2 * length (points m))"
    by simp
  show ?thesis
    using search_deterministic_up_to_address_order[OF build_index30 build_index30 order,
        of "[29 / 2]" 16 16]
      build_index30 index30_ties_small_leaf_first
    by simp
qed

section \<open>A larger budget continues the same search\<close>






lemma nn_kdtree_search_Inr:
  assumes "nn_kdtree_search addr idx qu numnn nchecks = Inr rs"
  obtains nns where "search_cands addr idx qu numnn nchecks = Inr nns"
    "rs = take numnn (sort_key snd nns)" "numnn \<le> length nns"
proof -
  from assms obtain nns where
    c: "search_cands addr idx qu numnn nchecks = Inr nns"
    and rs: "rs = take (min numnn (if nchecks < numnn then numnn else nchecks))
                    (sort_key snd nns)"
    by (auto simp: nn_kdtree_search_def split: sum.splits)
  have "min numnn (if nchecks < numnn then numnn else nchecks) = numnn"
    by simp
  then show ?thesis
    using that[OF c] rs search_cands_length[OF c] by simp
qed



section \<open>The exhaustive search of one tree\<close>

















section \<open>Further properties of the specification\<close>

text \<open>
  X1. The leaves of a tree built from a nonempty range hold between 1 and 14 identifiers each
  and, taken together, exactly the identifiers of the range, none twice and none missing
  (the build leaves the range as the sequence of the leaves).
\<close>

theorem built_tree_leaves:
  assumes "kdtree_node_new pnts inds D state = Inr (t, inds', state')" and "inds \<noteq> []"
  shows "leaves_ok t \<and> points t = inds' \<and> mset (points t) = mset inds \<and>
         (distinct inds \<longrightarrow> distinct (points t))"
proof -
  have p: "points t = inds' \<and> mset inds' = mset inds"
    by (rule kdtree_node_new_points[OF assms(1)])
  then have "mset (points t) = mset inds"
    by simp
  then have "distinct inds \<longrightarrow> distinct (points t)"
    by (metis mset_eq_imp_distinct_iff)
  then show ?thesis
    using p kdtree_node_new_leaves_ok[OF assms] by simp
qed

theorem built_tree_leaves_witness:
  "kdtree_node_new (replicate 15 (0::rat)) [0..<15] 1 []
     = Inr (Internal (Leaf [1, 2, 3, 4, 5, 6, 7]) (Leaf [8, 9, 10, 11, 12, 13, 14, 0]) 0 0,
            [1, 2, 3, 4, 5, 6, 7, 8, 9, 10, 11, 12, 13, 14, 0], []) \<and>
   [0..<15] \<noteq> [] \<and>
   leaves_ok (Internal (Leaf [1, 2, 3, 4, 5, 6, 7]) (Leaf [8, 9, 10, 11, 12, 13, 14, 0])
                (0::rat) 0) \<and>
   mset (points (Internal (Leaf [1, 2, 3, 4, 5, 6, 7]) (Leaf [8, 9, 10, 11, 12, 13, 14, 0])
                   (0::rat) 0)) = mset [0..<15]"
proof -
  have ne: "[0..<15] \<noteq> []"
    by simp
  show ?thesis
    using built_tree_leaves[OF build_identical_points ne] build_identical_points ne
    by simp
qed

text \<open>X2. The results of a search are sorted ascending by squared distance.\<close>

theorem results_sorted:
  assumes "nn_kdtree_search addr idx qu numnn nchecks = Inr rs"
  shows "sorted (map snd rs)"
proof -
  from assms obtain nns where rs: "rs = take numnn (sort_key snd nns)"
    by (rule nn_kdtree_search_Inr)
  have "sorted (map snd (sort_key snd nns))"
    by (rule sorted_sort_key)
  then have "sorted (take numnn (map snd (sort_key snd nns)))"
    by (rule sorted_wrt_take)
  then show ?thesis
    unfolding rs take_map .
qed

theorem results_sorted_witness:
  "nn_kdtree_search (\<lambda>n. length (points n)) index30 [29 / 2] 16 16
     = Inr [(15, 1 / 4), (14, 1 / 4), (16, 9 / 4), (13, 9 / 4), (17, 25 / 4), (12, 25 / 4),
            (18, 49 / 4), (11, 49 / 4), (19, 81 / 4), (10, 81 / 4), (20, 121 / 4),
            (9, 121 / 4), (21, 169 / 4), (8, 169 / 4), (7, 225 / 4), (6, 289 / 4)] \<and>
   sorted (map snd [(15::nat, 1 / 4 :: rat), (14, 1 / 4), (16, 9 / 4), (13, 9 / 4),
            (17, 25 / 4), (12, 25 / 4), (18, 49 / 4), (11, 49 / 4), (19, 81 / 4),
            (10, 81 / 4), (20, 121 / 4), (9, 121 / 4), (21, 169 / 4), (8, 169 / 4),
            (7, 225 / 4), (6, 289 / 4)])"
  using results_sorted[OF index30_ties_small_leaf_first] index30_ties_small_leaf_first
  by blast

lemma scan_leaf_entries:
  "set (fst (scan_leaf qu pnts D cur_inds (nns, seen)))
     \<subseteq> set nns \<union> (\<lambda>i. (i, dist_l2 qu pnts D i)) ` set cur_inds"
proof (induction qu pnts D cur_inds "(nns, seen)" arbitrary: nns seen rule: scan_leaf.induct)
  case (1 qu pnts D nns seen)
  show ?case by simp
next
  case (2 qu pnts D i nns seen)
  show ?case by auto
next
  case (3 qu pnts D i j cur_inds nns seen)
  show ?case
  proof (cases "seen ! i")
    case True
    then show ?thesis
      using "3.hyps"[of nns seen] by auto
  next
    case False
    then show ?thesis
      using "3.hyps"[of "nns @ [(i, dist_l2 qu pnts D i)]" "seen[i := True]"] by auto
  qed
qed

lemma kdtree_node_search_valid:
  assumes "kdtree_node_search t qu pq nns seen pnts D mindsq = Inr (pq', nns', seen')"
    and "set (points t) \<subseteq> {0..<N}"
    and "\<forall>e\<in>set pq. set (points (snd e)) \<subseteq> {0..<N}"
    and "\<forall>e\<in>set nns. fst e < N \<and> snd e = dist_l2 qu pnts D (fst e)"
  shows "(\<forall>e\<in>set pq'. set (points (snd e)) \<subseteq> {0..<N}) \<and>
         (\<forall>e\<in>set nns'. fst e < N \<and> snd e = dist_l2 qu pnts D (fst e))"
proof -
  have r: "pq' = frontier qu mindsq t @ pq"
    "nns' = fst (scan_leaf qu pnts D (leaf_of qu t) (nns, seen))"
    using kdtree_node_search_Inr[OF assms(1)] by simp_all
  have pts: "set (points t) = set (leaf_of qu t) \<union> pq_points (frontier qu mindsq t)"
    by (rule points_leaf_frontier)
  have "\<forall>e\<in>set (frontier qu mindsq t). set (points (snd e)) \<subseteq> {0..<N}"
    using assms(2) unfolding pts pq_points_def by blast
  then have a: "\<forall>e\<in>set pq'. set (points (snd e)) \<subseteq> {0..<N}"
    unfolding r using assms(3) by auto
  have "\<forall>i\<in>set (leaf_of qu t). i < N"
    using assms(2) unfolding pts by auto
  then have b: "\<forall>e\<in>set nns'. fst e < N \<and> snd e = dist_l2 qu pnts D (fst e)"
    unfolding r using scan_leaf_entries[of qu pnts D "leaf_of qu t" nns seen] assms(4) by auto
  show ?thesis
    using a b by simp
qed

lemma search_trees_valid:
  assumes "search_trees qu pnts D ts (pq, nns, seen) = Inr (pq', nns', seen')"
    and "\<forall>t\<in>set ts. set (points t) \<subseteq> {0..<N}"
    and "\<forall>e\<in>set pq. set (points (snd e)) \<subseteq> {0..<N}"
    and "\<forall>e\<in>set nns. fst e < N \<and> snd e = dist_l2 qu pnts D (fst e)"
  shows "(\<forall>e\<in>set pq'. set (points (snd e)) \<subseteq> {0..<N}) \<and>
         (\<forall>e\<in>set nns'. fst e < N \<and> snd e = dist_l2 qu pnts D (fst e))"
  using assms
proof (induction ts arbitrary: pq nns seen)
  case Nil
  then show ?case by simp
next
  case (Cons t ts)
  from Cons.prems(1) obtain pq1 nns1 seen1 where
    K: "kdtree_node_search t qu pq nns seen pnts D 0 = Inr (pq1, nns1, seen1)"
    and R: "search_trees qu pnts D ts (pq1, nns1, seen1) = Inr (pq', nns', seen')"
    by (auto split: sum.splits)
  have t: "set (points t) \<subseteq> {0..<N}" and ts: "\<forall>t\<in>set ts. set (points t) \<subseteq> {0..<N}"
    using Cons.prems(2) by simp_all
  have k: "\<forall>e\<in>set pq1. set (points (snd e)) \<subseteq> {0..<N}"
    "\<forall>e\<in>set nns1. fst e < N \<and> snd e = dist_l2 qu pnts D (fst e)"
    using kdtree_node_search_valid[OF K t Cons.prems(3,4)] by simp_all
  show ?case
    by (rule Cons.IH[OF R ts k])
qed

text \<open>
  X3. Whenever a search of a built index returns, every result is a point identifier
  below \<open>N\<close> together with the squared distance of that point to the query.
\<close>

theorem results_valid:
  assumes "nn_kdtree_new rk_seed pnts N D ntrees seed = Inr idx"
    and "nn_kdtree_search addr idx qu numnn nchecks = Inr rs"
  shows "\<forall>e\<in>set rs. fst e < N \<and> snd e = dist_l2 qu pnts D (fst e)"
proof -
  from assms(1) obtain inds state where
    B: "build_trees pnts D ntrees [0..<N] (rk_seed seed) = Inr (trees_of idx, inds, state)"
    and idx: "N_of idx = N" "D_of idx = D" "pnts_of idx = pnts"
    by (rule nn_kdtree_new_Inr)
  have pts: "\<forall>t\<in>set (trees_of idx). set (points t) \<subseteq> {0..<N}"
  proof
    fix t
    assume "t \<in> set (trees_of idx)"
    then have "mset (points t) = mset [0..<N]"
      using build_trees_perm[OF B] by blast
    then have "set (points t) = set [0..<N]"
      by (rule mset_eq_setD)
    then show "set (points t) \<subseteq> {0..<N}"
      by simp
  qed
  from assms(2) obtain nns where
    C: "search_cands addr idx qu numnn nchecks = Inr nns"
    and rs: "rs = take numnn (sort_key snd nns)"
    by (rule nn_kdtree_search_Inr)
  from C obtain s pq seen where
    S: "search_trees qu pnts D (trees_of idx) ([], [], replicate N False) = Inr s"
    and Dr: "drain addr qu pnts D (max numnn nchecks) s = Inr (pq, nns, seen)"
    unfolding idx[symmetric] by (rule search_cands_Inr)
  obtain pq0 nns0 seen0 where s: "s = (pq0, nns0, seen0)"
    by (cases s) auto
  define I where
    "I = (\<lambda>s :: 'a BPQ \<times> (nat \<times> 'a) list \<times> bool list.
            (\<forall>e\<in>set (fst s). set (points (snd e)) \<subseteq> {0..<N}) \<and>
            (\<forall>e\<in>set (fst (snd s)). fst e < N \<and> snd e = dist_l2 qu pnts D (fst e)))"
  have I0: "I s"
    using search_trees_valid[OF S[unfolded s] pts] unfolding I_def s by simp
  have "I (pq, nns, seen) \<and> max numnn nchecks \<le> length (fst (snd (pq, nns, seen)))"
  proof (rule drain_invariant[OF Dr, of I, OF I0])
    fix pq1 nns1 seen1 s''
    assume inv: "I (pq1, nns1, seen1)" and ne: "pq1 \<noteq> []"
      and K: "kdtree_node_search (snd (pq_top addr pq1)) qu (pq_pop addr pq1) nns1 seen1
                pnts D (fst (pq_top addr pq1)) = Inr s''"
    obtain pq2 nns2 seen2 where s'': "s'' = (pq2, nns2, seen2)"
      by (cases s'') auto
    have top: "set (points (snd (pq_top addr pq1))) \<subseteq> {0..<N}"
      using inv pq_top_in[OF ne, of addr] unfolding I_def by simp
    have rest: "\<forall>e\<in>set (pq_pop addr pq1). set (points (snd e)) \<subseteq> {0..<N}"
      using inv unfolding I_def pq_pop_def by (auto dest: notin_set_remove1)
    have old: "\<forall>e\<in>set nns1. fst e < N \<and> snd e = dist_l2 qu pnts D (fst e)"
      using inv unfolding I_def by simp
    show "I s''"
      using kdtree_node_search_valid[OF K[unfolded s''] top rest old]
      unfolding I_def s'' by simp
  qed
  then have "\<forall>e\<in>set nns. fst e < N \<and> snd e = dist_l2 qu pnts D (fst e)"
    unfolding I_def by simp
  moreover have "set rs \<subseteq> set nns"
    unfolding rs using set_take_subset[of numnn "sort_key snd nns"] by simp
  ultimately show ?thesis
    by blast
qed

theorem results_valid_witness:
  "nn_kdtree_new (\<lambda>s. []) line30 30 1 1 42 = Inr index30 \<and>
   nn_kdtree_search (\<lambda>n. 0) index30 [14] 1 9 = Inr [(14, 0)] \<and>
   fst (14::nat, 0::rat) < 30 \<and> snd (14::nat, 0::rat) = dist_l2 [14] line30 1 14"
  using results_valid[OF build_index30 index30_top1_budget9]
    build_index30 index30_top1_budget9
  by simp

end
